theory Spec2Isabelle
  imports Main "HOL-Library.Multiset" "HOL-Library.Sublist"
begin

section \<open>The rewrap plugin: text model\<close>

text \<open>
  The plugin is Python 2 code on top of PyGTK, where the text of a buffer is an 8-bit
  \<open>str\<close>.  A text is therefore a \<^typ>\<open>string\<close>, one \<^typ>\<open>char\<close> per byte, and the integers
  (offsets, the margin, the tab width) are Python's unbounded integers, \<^typ>\<open>int\<close>.
\<close>

definition LF :: char where "LF = CHR 0x0A"
definition CR :: char where "CR = CHR 0x0D"
definition TAB :: char where "TAB = CHR 0x09"
definition VT :: char where "VT = CHR 0x0B"
definition FF :: char where "FF = CHR 0x0C"

text \<open>\<open>INDENT_CHARS = ' \t#/;*!-'\<close> (line 41 of rewrap.py).\<close>

definition INDENT_CHARS :: string where
  "INDENT_CHARS = [CHR '' '', TAB, CHR ''#'', CHR ''/'', CHR '';'', CHR ''*'', CHR ''!'', CHR ''-'']"

text \<open>The only exception the text functions could raise: an index into an empty string.\<close>

datatype error = IndexError

text \<open>\<open>s[-1]\<close> and \<open>s[0]\<close> on a Python string.\<close>

definition last_char :: "string \<Rightarrow> error + char" where
  "last_char s = (if s = [] then Inl IndexError else Inr (last s))"

definition first_char :: "string \<Rightarrow> error + char" where
  "first_char s = (case s of [] \<Rightarrow> Inl IndexError | c # _ \<Rightarrow> Inr c)"

text \<open>
  \<open>sep.join(xs)\<close>.  The definition is for lists of any type; Python's \<open>join\<close> is the
  instance for strings.
\<close>

fun py_join :: "'a list \<Rightarrow> 'a list list \<Rightarrow> 'a list" where
  "py_join sep [] = []"
| "py_join sep [x] = x"
| "py_join sep (x # y # ys) = x @ sep @ py_join sep (y # ys)"

text \<open>
  \<open>str.splitlines()\<close> of an 8-bit string: the line boundaries are \<open>\n\<close>, \<open>\r\<close> and
  \<open>\r\n\<close>; the boundaries are not kept, and a boundary at the very end opens no further
  (empty) line.  The first argument is the line read so far.
\<close>

fun splitlines_from :: "string \<Rightarrow> string \<Rightarrow> string list" where
  "splitlines_from cur [] = (if cur = [] then [] else [cur])"
| "splitlines_from cur [c] =
     (if c = LF \<or> c = CR then [cur] else [cur @ [c]])"
| "splitlines_from cur (c # d # cs) =
     (if c = CR \<and> d = LF then cur # splitlines_from [] cs
      else if c = LF \<or> c = CR then cur # splitlines_from [] (d # cs)
      else splitlines_from (cur @ [c]) (d # cs))"

definition splitlines :: "string \<Rightarrow> string list" where
  "splitlines s = splitlines_from [] s"

text \<open>\<open>line.lstrip(INDENT_CHARS)\<close>: drop the leading characters that are in the set.\<close>

definition lstrip :: "string \<Rightarrow> string \<Rightarrow> string" where
  "lstrip chars line = dropWhile (\<lambda>c. c \<in> set chars) line"

text \<open>
  \<open>re.match('[%s]*' % INDENT_CHARS, text).group(0)\<close>: the pattern is the character class
  \<open>[ \t#/;*!-]\<close> under a greedy star, anchored at the start of the text (the final \<open>-\<close> of
  the class is literal).  It always matches, possibly the empty string.
\<close>

fun match_indent :: "string \<Rightarrow> string" where
  "match_indent [] = []"
| "match_indent (c # cs) = (if c \<in> set INDENT_CHARS then c # match_indent cs else [])"

text \<open>
  The class \<open>\s\<close> of Python 2's \<open>re\<close> on an 8-bit pattern without flags is
  \<open>[ \t\n\r\f\v]\<close>; \<open>\S\<close> is its complement.
\<close>

definition is_space :: "char \<Rightarrow> bool" where
  "is_space c \<longleftrightarrow> c = CHR '' '' \<or> c = TAB \<or> c = LF \<or> c = CR \<or> c = FF \<or> c = VT"

text \<open>
  \<open>re.findall('\S+', paragraph)\<close>: the maximal runs of non-whitespace characters, from left
  to right.  The first argument is the run read so far.
\<close>

fun findall_words_from :: "string \<Rightarrow> string \<Rightarrow> string list" where
  "findall_words_from cur [] = (if cur = [] then [] else [cur])"
| "findall_words_from cur (c # cs) =
     (if is_space c then (if cur = [] then findall_words_from [] cs
                          else cur # findall_words_from [] cs)
      else findall_words_from (cur @ [c]) cs)"

definition findall_words :: "string \<Rightarrow> string list" where
  "findall_words s = findall_words_from [] s"

section \<open>The paragraph pattern\<close>

text \<open>
  \<open>word_re = r'[ \t]*\S+'\<close>, \<open>line_re = r'^(?:' + word_re + r')+\n'\<close>.  A character can be
  consumed by \<open>(?:[ \t]*\S+)+\<close> only if it is a space, a tab or a non-whitespace
  character, that is, anything but \<open>\n\<close>, \<open>\r\<close>, \<open>\f\<close>, \<open>\v\<close>; the strings this group
  matches are the non-empty strings of such characters whose last character is
  non-whitespace.  As the group cannot consume \<open>\n\<close> and must be followed by \<open>\n\<close>, the
  line pattern has at most one match at a position: the characters up to the first
  \<open>\n\<close>, and that \<open>\n\<close>.  \<open>match_line\<close> returns the matched text and the rest.
\<close>

definition line_char :: "char \<Rightarrow> bool" where
  "line_char c \<longleftrightarrow> c = CHR '' '' \<or> c = TAB \<or> \<not> is_space c"

definition match_line :: "string \<Rightarrow> (string \<times> string) option" where
  "match_line s =
     (let body = takeWhile line_char s; rest = dropWhile line_char s
      in if body \<noteq> [] \<and> \<not> is_space (last body) \<and> rest \<noteq> [] \<and> hd rest = LF
         then Some (body @ [LF], tl rest) else None)"

lemma match_line_split: "match_line s = Some (l, r) \<Longrightarrow> s = l @ r \<and> l \<noteq> []"
proof -
  assume h: "match_line s = Some (l, r)"
  let ?d = "dropWhile line_char s"
  from h have d: "?d \<noteq> []" "hd ?d = LF" and r: "r = tl ?d"
    and l: "l = takeWhile line_char s @ [LF]"
    by (auto simp: match_line_def Let_def split: if_splits)
  from d have "?d = LF # tl ?d" by (cases ?d) auto
  with l r have "l @ r = takeWhile line_char s @ ?d" by simp
  with l show ?thesis by simp
qed

lemma match_line_shorter: "match_line s = Some (l, r) \<Longrightarrow> length r < length s"
  using match_line_split [of s l r] by (cases l) auto

text \<open>
  \<open>(?:line_re)*\<close>, greedy: the lines matched one after the other, as many as there are.
  After a matched line the position follows a \<open>\n\<close>, so \<open>^\<close> holds there under
  \<open>re.MULTILINE\<close>.  Nothing follows the group in \<open>paragraph_re\<close>, so the longest run is
  the match.
\<close>

function match_lines :: "string \<Rightarrow> string \<times> string" where
  "match_lines s =
     (case match_line s of
        None \<Rightarrow> ([], s)
      | Some (l, r) \<Rightarrow> (case match_lines r of (p, r') \<Rightarrow> (l @ p, r')))"
  by pat_completeness auto
termination
  by (relation "measure length") (auto dest: match_line_shorter)

declare match_lines.simps [simp del]

lemma match_lines_split: "match_lines s = (p, r) \<Longrightarrow> s = p @ r"
proof (induction s arbitrary: p r rule: match_lines.induct)
  case (1 s)
  show ?case
  proof (cases "match_line s")
    case None
    with "1.prems" show ?thesis by (simp add: match_lines.simps [of s])
  next
    case (Some a)
    obtain l r0 where a: "a = (l, r0)" by (cases a)
    obtain p' r' where m: "match_lines r0 = (p', r')" by (cases "match_lines r0")
    from Some a have s: "s = l @ r0" by (simp add: match_line_split)
    from "1.prems" Some a m have r: "r = r'" "p = l @ p'"
      by (simp_all add: match_lines.simps [of s])
    from "1.IH" [OF Some a [symmetric] m] have "r0 = p' @ r'" .
    with s r show ?thesis by simp
  qed
qed

lemma match_lines_shorter: "match_lines s = (p, r) \<Longrightarrow> p \<noteq> [] \<Longrightarrow> length r < length s"
  using match_lines_split [of s p r] by (cases p) auto

text \<open>
  \<open>re.findall(paragraph_re, text, re.MULTILINE)\<close> with
  \<open>paragraph_re = r'(?:' + line_re + ')+'\<close>: the scan tries the pattern at the current
  position; on a match (at least one line, so never empty) it records the matched text and
  goes on behind it, otherwise it moves one character on.  The flag says whether \<open>^\<close>
  holds at the position: at the start of the text and behind every \<open>\n\<close>.
\<close>

function findall_paragraphs_from :: "bool \<Rightarrow> string \<Rightarrow> string list" where
  "findall_paragraphs_from bol s =
     (if s = [] then []
      else if bol then
        (case match_lines s of
           (p, r) \<Rightarrow> if p = [] then findall_paragraphs_from (hd s = LF) (tl s)
                     else p # findall_paragraphs_from (last p = LF) r)
      else findall_paragraphs_from (hd s = LF) (tl s))"
  by pat_completeness auto
termination
proof (relation "measure (\<lambda>(b, s). length s)")
  fix bol :: bool and s :: string and x :: "string \<times> string" and p r :: string
  assume "(p, r) = match_lines s" and "p \<noteq> []"
  then show "((last p = LF, r), (bol, s)) \<in> measure (\<lambda>(b, s). length s)"
    using match_lines_shorter [of s p r] by simp
qed auto

declare findall_paragraphs_from.simps [simp del]

definition findall_paragraphs :: "string \<Rightarrow> string list" where
  "findall_paragraphs s = findall_paragraphs_from True s"

section \<open>Re-wrapping\<close>

text \<open>
  The body of the \<open>for word in words\<close> loop of \<open>format_paragraph\<close> (lines 250 to 269),
  on the loop state \<open>(new_paragraph, offset)\<close>.  The two \<open>if\<close> statements run one after
  the other, the second on the offset the first has left.
\<close>

definition add_word :: "string \<Rightarrow> int \<Rightarrow> int \<Rightarrow> string \<times> int \<Rightarrow> string \<Rightarrow> error + string \<times> int" where
  "add_word indent indent_width max_line_length st word =
     (case
        (if snd st \<noteq> 0 then
           (case last_char (fst st) of
              Inl e \<Rightarrow> Inl e
            | Inr c \<Rightarrow>
               (case first_char word of
                  Inl e \<Rightarrow> Inl e
                | Inr d \<Rightarrow>
                   (let is_after_period = (c = CHR ''.'');
                        is_before_capital = (d \<in> set ''ABCDEFGHIJKLMNOPQRSTUVWXYZ'');
                        is_between_sentences = (is_after_period \<and> is_before_capital);
                        space = (if is_between_sentences then ''  '' else '' '');
                        potential_offset = snd st + int (length space) + int (length word)
                    in if potential_offset \<le> max_line_length
                       then Inr (py_join space [fst st, word], potential_offset)
                       else Inr (fst st @ [LF], 0))))
         else Inr st)
      of
        Inl e \<Rightarrow> Inl e
      | Inr (new_paragraph, offset) \<Rightarrow>
          if offset = 0
          then Inr (py_join indent [new_paragraph, word], indent_width + int (length word))
          else Inr (new_paragraph, offset))"

fun words_loop :: "string \<Rightarrow> int \<Rightarrow> int \<Rightarrow> string \<times> int \<Rightarrow> string list \<Rightarrow> error + string \<times> int" where
  "words_loop indent indent_width max_line_length st [] = Inr st"
| "words_loop indent indent_width max_line_length st (word # words) =
     (case add_word indent indent_width max_line_length st word of
        Inl e \<Rightarrow> Inl e
      | Inr st' \<Rightarrow> words_loop indent indent_width max_line_length st' words)"

text \<open>\<open>format_paragraph\<close>, with the variables of the enclosing function as parameters.\<close>

definition format_paragraph :: "string \<Rightarrow> int \<Rightarrow> int \<Rightarrow> string \<Rightarrow> error + string" where
  "format_paragraph indent indent_width max_line_length paragraph =
     (case words_loop indent indent_width max_line_length ([], 0) (findall_words paragraph) of
        Inl e \<Rightarrow> Inl e
      | Inr (new_paragraph, offset) \<Rightarrow> Inr (new_paragraph @ [LF]))"

text \<open>
  The generator \<open>(format_paragraph(paragraph) for paragraph in paragraphs)\<close> as \<open>join\<close>
  consumes it: the results in order, or the first exception.
\<close>

fun format_all :: "string \<Rightarrow> int \<Rightarrow> int \<Rightarrow> string list \<Rightarrow> error + string list" where
  "format_all indent indent_width max_line_length [] = Inr []"
| "format_all indent indent_width max_line_length (p # ps) =
     (case format_paragraph indent indent_width max_line_length p of
        Inl e \<Rightarrow> Inl e
      | Inr q \<Rightarrow>
         (case format_all indent indent_width max_line_length ps of
            Inl e \<Rightarrow> Inl e
          | Inr qs \<Rightarrow> Inr (q # qs)))"

text \<open>
  The stages of \<open>_rewrap_selection\<close> between the guard on the empty selection and the
  replacement of the selection (lines 231 to 285): \<open>text0\<close> is the selected text,
  \<open>max_line_length\<close> and \<open>tab_width\<close> are the two preferences read from gconf.
\<close>

definition get_indent :: "string \<Rightarrow> string" where
  "get_indent text0 = match_indent (text0 @ [LF])"

definition get_indent_width :: "string \<Rightarrow> int \<Rightarrow> int" where
  "get_indent_width indent tab_width =
     int (length indent) + int (count_list indent TAB) * (tab_width - 1)"

definition remove_indentation :: "string \<Rightarrow> string" where
  "remove_indentation text = py_join [LF] (map (lstrip INDENT_CHARS) (splitlines text))"

definition get_paragraphs :: "string \<Rightarrow> string list" where
  "get_paragraphs text0 = findall_paragraphs (remove_indentation (text0 @ [LF]))"

definition reflow :: "string \<Rightarrow> int \<Rightarrow> int \<Rightarrow> error + string" where
  "reflow text0 max_line_length tab_width =
     (let indent = get_indent text0;
          indent_width = get_indent_width indent tab_width;
          paragraphs = get_paragraphs text0;
          blank_line = indent @ [LF]
      in case format_all indent indent_width max_line_length paragraphs of
           Inl e \<Rightarrow> Inl e
         | Inr new_paragraphs \<Rightarrow> Inr (py_join blank_line new_paragraphs))"

text \<open>
  \<open>_rewrap_selection\<close> itself: on an empty selection it returns at once and the buffer is
  left alone (\<open>None\<close>); otherwise the selection is replaced by the output (\<open>Some\<close>).
\<close>

definition rewrap_selection :: "string \<Rightarrow> int \<Rightarrow> int \<Rightarrow> error + string option" where
  "rewrap_selection text0 max_line_length tab_width =
     (if text0 = [] then Inr None
      else case reflow text0 max_line_length tab_width of
             Inl e \<Rightarrow> Inl e
           | Inr output \<Rightarrow> Inr (Some output))"

section \<open>Notions used in the statements and proofs\<close>

text \<open>The two characters at which \<open>splitlines\<close> breaks a line.\<close>

definition nl :: "char \<Rightarrow> bool" where
  "nl c \<longleftrightarrow> c = LF \<or> c = CR"

text \<open>A token: what \<open>\\S+\<close> matches, a non-empty string without whitespace.\<close>

definition is_token :: "string \<Rightarrow> bool" where
  "is_token w \<longleftrightarrow> w \<noteq> [] \<and> (\<forall>c\<in>set w. \<not> is_space c)"

text \<open>
  The spacing rule of section 4.4 of the specification: between a token \<open>prev\<close> and the
  token \<open>w\<close> that follows it on a line there are two spaces if \<open>prev\<close> ends with a period
  and \<open>w\<close> starts with one of \<open>A\<close> to \<open>Z\<close>, and one space otherwise.  \<open>glue\<close> is the text
  of a line (without indent) that holds the given tokens.
\<close>

definition sep_for :: "string \<Rightarrow> string \<Rightarrow> string" where
  "sep_for prev w =
     (if last prev = CHR ''.'' \<and> hd w \<in> set ''ABCDEFGHIJKLMNOPQRSTUVWXYZ''
      then ''  '' else '' '')"

fun glue :: "string list \<Rightarrow> string" where
  "glue [] = []"
| "glue [w] = w"
| "glue (w # v # ws) = w @ sep_for w v @ glue (v # ws)"

text \<open>
  Greedy packing, on lists of tokens: \<open>cur\<close> holds the tokens of the current line and
  \<open>off\<close> its width; a token goes on the current line if the width stays within
  \<open>mll\<close>, and opens a new line otherwise.  \<open>wrap\<close> packs the tokens of a paragraph and
  \<open>render\<close> writes the lines out, each with the indent in front and a newline behind.
  These follow the specification's description and are compared with \<open>format_paragraph\<close>
  below.
\<close>

fun pack :: "int \<Rightarrow> int \<Rightarrow> string list \<Rightarrow> int \<Rightarrow> string list \<Rightarrow> string list list" where
  "pack iw mll cur off [] = [cur]"
| "pack iw mll cur off (w # ws) =
     (if off + int (length (sep_for (last cur) w)) + int (length w) \<le> mll
      then pack iw mll (cur @ [w]) (off + int (length (sep_for (last cur) w)) + int (length w)) ws
      else cur # pack iw mll [w] (iw + int (length w)) ws)"

definition wrap :: "int \<Rightarrow> int \<Rightarrow> string list \<Rightarrow> string list list" where
  "wrap iw mll ws = (case ws of [] \<Rightarrow> [] | w # ws' \<Rightarrow> pack iw mll [w] (iw + int (length w)) ws')"

definition render :: "string \<Rightarrow> string list list \<Rightarrow> string" where
  "render ind gs = concat (map (\<lambda>g. ind @ glue g @ [LF]) gs)"

text \<open>
  The column width of a line, a tab counting for \<open>tab_width\<close> columns and any other
  character for one: the formula of \<open>indent_width\<close>, on any line.
\<close>

definition column_width :: "string \<Rightarrow> int \<Rightarrow> int" where
  "column_width line tab_width = int (length line) + int (count_list line TAB) * (tab_width - 1)"

text \<open>
  The lines a paragraph is wrapped into, and the lines of the whole output: those of the
  paragraphs in order, with one line holding just the indent between two paragraphs.
\<close>

definition paragraph_lines :: "string \<Rightarrow> int \<Rightarrow> int \<Rightarrow> string \<Rightarrow> string list" where
  "paragraph_lines ind iw mll p = map (\<lambda>g. ind @ glue g) (wrap iw mll (findall_words p))"

definition output_lines :: "string \<Rightarrow> int \<Rightarrow> int \<Rightarrow> string list" where
  "output_lines t mll tw =
     py_join [get_indent t]
       (map (paragraph_lines (get_indent t) (get_indent_width (get_indent t) tw) mll)
          (get_paragraphs t))"

text \<open>
  What the group \<open>(?:[ \\t]*\\S+)+\<close> of the line pattern matches in full: a non-empty string
  of spaces, tabs and non-whitespace characters that ends with a non-whitespace character.
\<close>

definition line_body :: "string \<Rightarrow> bool" where
  "line_body b \<longleftrightarrow> b \<noteq> [] \<and> (\<forall>c\<in>set b. line_char c) \<and> \<not> is_space (last b)"

text \<open>
  A text written as lines, each ended by \<open>\\n\<close>; and the paragraphs of a list of lines
  as section 4.3 of the specification describes them: the maximal runs of consecutive
  lines that match the line pattern (\<open>line_body\<close>), in the order of the lines.  Any number
  of other lines between two runs separates them.
\<close>

abbreviation unlines :: "string list \<Rightarrow> string" where
  "unlines ls \<equiv> concat (map (\<lambda>l. l @ [LF]) ls)"

fun runs_from :: "string list \<Rightarrow> string list \<Rightarrow> string list list" where
  "runs_from cur [] = (if cur = [] then [] else [cur])"
| "runs_from cur (s # ss) =
     (if line_body s then runs_from (cur @ [s]) ss
      else if cur = [] then runs_from [] ss
      else cur # runs_from [] ss)"

definition runs :: "string list \<Rightarrow> string list list" where
  "runs ss = runs_from [] ss"

section \<open>Facts about lines and joins\<close>

lemma splitlines_from_char:
  "\<not> nl c \<Longrightarrow> splitlines_from cur (c # s) = splitlines_from (cur @ [c]) s"
  by (cases s) (auto simp: nl_def)

lemma splitlines_from_LF: "splitlines_from cur (LF # s) = cur # splitlines_from [] s"
  by (cases s) (auto simp: LF_def CR_def)

lemma splitlines_from_line:
  "\<forall>c\<in>set l. \<not> nl c \<Longrightarrow> splitlines_from cur (l @ s) = splitlines_from (cur @ l) s"
  by (induction l arbitrary: cur) (simp_all add: splitlines_from_char)

lemma splitlines_from_all_nl_free:
  "list_all (\<lambda>c. \<not> nl c) cur \<Longrightarrow>
   list_all (list_all (\<lambda>c. \<not> nl c)) (splitlines_from cur s)"
  by (induction cur s rule: splitlines_from.induct) (simp_all add: nl_def)

lemma splitlines_nl_free: "l \<in> set (splitlines s) \<Longrightarrow> c \<in> set l \<Longrightarrow> \<not> nl c"
  using splitlines_from_all_nl_free [of "[]" s] by (auto simp: splitlines_def list_all_iff)

lemma splitlines_join:
  "\<forall>l\<in>set ls. \<forall>c\<in>set l. \<not> nl c \<Longrightarrow>
   splitlines (py_join [LF] ls) = (if ls \<noteq> [] \<and> last ls = [] then butlast ls else ls)"
proof (induction ls rule: induct_list012)
  case 1
  show ?case by (simp add: splitlines_def)
next
  case (2 x)
  then have "splitlines_from [] (x @ []) = splitlines_from ([] @ x) []"
    by (intro splitlines_from_line) simp
  then show ?case by (simp add: splitlines_def)
next
  case (3 x y ys)
  from "3.prems" have "splitlines_from [] (x @ LF # py_join [LF] (y # ys))
      = splitlines_from ([] @ x) (LF # py_join [LF] (y # ys))"
    by (intro splitlines_from_line) simp
  then have "splitlines (py_join [LF] (x # y # ys)) = x # splitlines (py_join [LF] (y # ys))"
    by (simp add: splitlines_def splitlines_from_LF)
  with "3.IH"(2) "3.prems" show ?case by simp
qed

lemma lstrip_idem: "lstrip cs (lstrip cs l) = lstrip cs l"
proof -
  have "dropWhile P (dropWhile P xs) = dropWhile P xs" for P and xs :: string
    by (induction xs) auto
  then show ?thesis by (simp add: lstrip_def)
qed

lemma lstrip_set: "c \<in> set (lstrip cs l) \<Longrightarrow> c \<in> set l"
  by (auto simp: lstrip_def dest: set_dropWhileD)

lemma py_join_snoc_empty:
  "ls \<noteq> [] \<Longrightarrow> py_join [LF] (ls @ [[]]) = py_join [LF] ls @ [LF]"
  by (induction ls rule: induct_list012) auto

lemma py_join_last_nl_free:
  "ls \<noteq> [] \<Longrightarrow> last ls \<noteq> [] \<Longrightarrow> py_join sep ls \<noteq> [] \<and> last (py_join sep ls) = last (last ls)"
  by (induction sep ls rule: py_join.induct) auto

lemma remove_indentation_twice:
  "remove_indentation (remove_indentation t) =
     (if remove_indentation t \<noteq> [] \<and> last (remove_indentation t) = LF
      then butlast (remove_indentation t) else remove_indentation t)"
proof -
  define ls where "ls = map (lstrip INDENT_CHARS) (splitlines t)"
  have r: "remove_indentation t = py_join [LF] ls"
    by (simp add: remove_indentation_def ls_def)
  have free: "\<forall>l\<in>set ls. \<forall>c\<in>set l. \<not> nl c"
    by (auto simp: ls_def dest: lstrip_set splitlines_nl_free)
  have idem: "map (lstrip INDENT_CHARS) ls = ls"
    by (simp add: ls_def lstrip_idem)
  have idem': "map (lstrip INDENT_CHARS) (butlast ls) = butlast ls"
    using idem by (metis map_butlast)
  have rr: "remove_indentation (py_join [LF] ls) =
      py_join [LF] (if ls \<noteq> [] \<and> last ls = [] then butlast ls else ls)"
    using splitlines_join [OF free] idem idem' by (simp add: remove_indentation_def)
  show ?thesis
  proof (cases "ls = []")
    case True
    with r rr show ?thesis by simp
  next
    case ne: False
    show ?thesis
    proof (cases "last ls = []")
      case True
      with ne have ls: "ls = butlast ls @ [[]]" by (metis append_butlast_last_id)
      show ?thesis
      proof (cases "butlast ls = []")
        case True
        with ls have "ls = [[]]" by simp
        with r rr show ?thesis by simp
      next
        case False
        then have "py_join [LF] (butlast ls @ [[]]) = py_join [LF] (butlast ls) @ [LF]"
          by (rule py_join_snoc_empty)
        with ls have "py_join [LF] ls = py_join [LF] (butlast ls) @ [LF]" by simp
        with r rr ne True show ?thesis by simp
      qed
    next
      case False
      with ne have "py_join [LF] ls \<noteq> [] \<and> last (py_join [LF] ls) = last (last ls)"
        by (intro py_join_last_nl_free)
      moreover from ne False free have "\<not> nl (last (last ls))"
        by (metis last_in_set)
      ultimately have "last (py_join [LF] ls) \<noteq> LF" by (auto simp: nl_def)
      with r rr ne False show ?thesis by simp
    qed
  qed
qed

lemma match_indent_takeWhile: "match_indent s = takeWhile (\<lambda>c. c \<in> set INDENT_CHARS) s"
  by (induction s) auto

lemma prefix_takeWhile: "prefix p t \<Longrightarrow> \<forall>c\<in>set p. P c \<Longrightarrow> prefix p (takeWhile P t)"
  by (induction p arbitrary: t) (auto simp: prefix_def)

lemma INDENT_CHARS_not_nl: "c \<in> set INDENT_CHARS \<Longrightarrow> c \<noteq> LF \<and> c \<noteq> CR"
  by (auto simp: INDENT_CHARS_def LF_def CR_def TAB_def)

lemma takeWhile_snoc_stop: "\<not> P x \<Longrightarrow> takeWhile P (t @ [x]) = takeWhile P t"
  by (induction t) auto

lemma get_indent_takeWhile: "get_indent t = takeWhile (\<lambda>c. c \<in> set INDENT_CHARS) t"
  using INDENT_CHARS_not_nl [of LF]
  by (auto simp: get_indent_def match_indent_takeWhile intro: takeWhile_snoc_stop)


section \<open>The paragraph loop packs greedily\<close>

lemma sep_for_cases: "sep_for u v = '' '' \<or> sep_for u v = ''  ''"
  by (simp add: sep_for_def)

lemma glue_snoc: "cur \<noteq> [] \<Longrightarrow> glue (cur @ [w]) = glue cur @ sep_for (last cur) w @ w"
  by (induction cur rule: induct_list012) simp_all

lemma glue_last:
  "cur \<noteq> [] \<Longrightarrow> \<forall>w\<in>set cur. w \<noteq> [] \<Longrightarrow> glue cur \<noteq> [] \<and> last (glue cur) = last (last cur)"
  by (induction cur rule: induct_list012) simp_all

lemma py_join_Cons: "xs \<noteq> [] \<Longrightarrow> py_join sep (x # xs) = x @ sep @ py_join sep xs"
  by (cases xs) simp_all

lemma pack_nonempty: "pack iw mll cur off ws \<noteq> []"
  by (induction ws arbitrary: cur off) simp_all

lemma add_word_first:
  "add_word ind iw mll ([], 0) w = Inr (ind @ w, iw + int (length w))"
  by (simp add: add_word_def)

lemma add_word_next:
  assumes "0 \<le> iw" "0 < off" "np \<noteq> []" "w \<noteq> []"
  shows "add_word ind iw mll (np, off) w =
     (if off + int (length (sep_for [last np] w)) + int (length w) \<le> mll
      then Inr (np @ sep_for [last np] w @ w, off + int (length (sep_for [last np] w)) + int (length w))
      else Inr (np @ [LF] @ ind @ w, iw + int (length w)))"
proof -
  from assms(4) obtain d w' where w: "w = d # w'" by (cases w) auto
  from assms(1,2) have pos: "off + int (length (sep_for [last np] w)) + int (length w) \<noteq> 0"
    by linarith
  from assms(2,3) w pos show ?thesis
    unfolding add_word_def last_char_def first_char_def sep_for_def Let_def
    by (simp del: set_simps)
qed

lemma sep_for_last: "w \<noteq> [] \<Longrightarrow> sep_for [last w] v = sep_for w v"
  by (simp add: sep_for_def)

lemma words_loop_pack:
  assumes "0 \<le> iw"
  shows "cur \<noteq> [] \<Longrightarrow> \<forall>w\<in>set cur. w \<noteq> [] \<Longrightarrow> \<forall>w\<in>set ws. w \<noteq> [] \<Longrightarrow> 0 < off \<Longrightarrow>
     \<exists>off'. words_loop ind iw mll (pre @ ind @ glue cur, off) ws =
        Inr (pre @ py_join [LF] (map (\<lambda>g. ind @ glue g) (pack iw mll cur off ws)), off')"
proof (induction ws arbitrary: cur off pre)
  case Nil
  then show ?case by simp
next
  case (Cons w ws)
  let ?np = "pre @ ind @ glue cur"
  let ?sep = "sep_for (last cur) w"
  let ?po = "off + int (length ?sep) + int (length w)"
  from Cons.prems have w: "w \<noteq> []" and ws: "\<forall>w\<in>set ws. w \<noteq> []" by simp_all
  from Cons.prems have g: "glue cur \<noteq> []" "last (glue cur) = last (last cur)"
    using glue_last [of cur] by simp_all
  from Cons.prems have lc: "last cur \<noteq> []" by simp
  from g have np: "?np \<noteq> []" and lnp: "last ?np = last (last cur)" by simp_all
  have sep: "sep_for [last ?np] w = ?sep"
    using lc lnp by (simp add: sep_for_def)
  have step: "add_word ind iw mll (?np, off) w =
     (if ?po \<le> mll then Inr (?np @ ?sep @ w, ?po) else Inr (?np @ [LF] @ ind @ w, iw + int (length w)))"
    using add_word_next [OF assms Cons.prems(4) np w, of ind mll] unfolding sep by simp
  show ?case
  proof (cases "?po \<le> mll")
    case True
    have pos: "0 < ?po" using Cons.prems(4) by linarith
    have "\<exists>off'. words_loop ind iw mll (pre @ ind @ glue (cur @ [w]), ?po) ws =
        Inr (pre @ py_join [LF] (map (\<lambda>g. ind @ glue g) (pack iw mll (cur @ [w]) ?po ws)), off')"
      using Cons.prems(2) w ws pos by (intro Cons.IH) simp_all
    with True step Cons.prems(1) show ?thesis by (simp add: glue_snoc)
  next
    case False
    have pos: "0 < iw + int (length w)" using assms w by (cases w) simp_all
    have "\<exists>off'. words_loop ind iw mll ((?np @ [LF]) @ ind @ glue [w], iw + int (length w)) ws =
        Inr ((?np @ [LF]) @ py_join [LF] (map (\<lambda>g. ind @ glue g) (pack iw mll [w] (iw + int (length w)) ws)), off')"
      using w ws pos by (intro Cons.IH) simp_all
    with False step show ?thesis by (simp add: py_join_Cons pack_nonempty)
  qed
qed

lemma py_join_LF_concat:
  "ls \<noteq> [] \<Longrightarrow> py_join [LF] ls @ [LF] = concat (map (\<lambda>l. l @ [LF]) ls)"
  by (induction ls rule: induct_list012) simp_all

lemma format_paragraph_render:
  assumes "0 \<le> iw" "\<forall>w\<in>set (findall_words p). w \<noteq> []" "findall_words p \<noteq> []"
  shows "format_paragraph ind iw mll p = Inr (render ind (wrap iw mll (findall_words p)))"
proof -
  from assms(3) obtain w ws where f: "findall_words p = w # ws" by (cases "findall_words p") auto
  with assms(2) have w: "w \<noteq> []" and ws: "\<forall>w\<in>set ws. w \<noteq> []" by simp_all
  have pos: "0 < iw + int (length w)" using assms(1) w by (cases w) simp_all
  obtain off' where "words_loop ind iw mll ([] @ ind @ glue [w], iw + int (length w)) ws =
      Inr ([] @ py_join [LF] (map (\<lambda>g. ind @ glue g) (pack iw mll [w] (iw + int (length w)) ws)), off')"
    using words_loop_pack [OF assms(1), of "[w]" ws "iw + int (length w)" ind mll "[]"] w ws pos
    by auto
  then have "format_paragraph ind iw mll p =
      Inr (py_join [LF] (map (\<lambda>g. ind @ glue g) (pack iw mll [w] (iw + int (length w)) ws)) @ [LF])"
    by (simp add: format_paragraph_def f add_word_first)
  also have "py_join [LF] (map (\<lambda>g. ind @ glue g) (pack iw mll [w] (iw + int (length w)) ws)) @ [LF]
      = concat (map (\<lambda>l. l @ [LF]) (map (\<lambda>g. ind @ glue g) (pack iw mll [w] (iw + int (length w)) ws)))"
    by (rule py_join_LF_concat) (simp add: pack_nonempty)
  finally show ?thesis
    by (simp add: render_def wrap_def f comp_def)
qed

lemma pack_concat: "concat (pack iw mll cur off ws) = cur @ ws"
  by (induction ws arbitrary: cur off) simp_all

lemma pack_groups_nonempty: "cur \<noteq> [] \<Longrightarrow> g \<in> set (pack iw mll cur off ws) \<Longrightarrow> g \<noteq> []"
  by (induction ws arbitrary: cur off) (auto split: if_splits)

lemma wrap_concat: "concat (wrap iw mll ws) = ws"
  by (cases ws) (simp_all add: wrap_def pack_concat)

lemma wrap_groups_nonempty: "g \<in> set (wrap iw mll ws) \<Longrightarrow> g \<noteq> []"
  by (cases ws) (auto simp: wrap_def dest: pack_groups_nonempty [rotated])

lemma wrap_nonempty: "ws \<noteq> [] \<Longrightarrow> wrap iw mll ws \<noteq> []"
  by (cases ws) (simp_all add: wrap_def pack_nonempty)

lemma glue_length_member: "w \<in> set g \<Longrightarrow> length w \<le> length (glue g)"
  by (induction g rule: induct_list012) auto

lemma glue_snoc_length:
  "cur \<noteq> [] \<Longrightarrow> int (length (glue (cur @ [w]))) =
     int (length (glue cur)) + int (length (sep_for (last cur) w)) + int (length w)"
  by (simp add: glue_snoc)

lemma pack_width:
  "cur \<noteq> [] \<Longrightarrow> off = iw + int (length (glue cur)) \<Longrightarrow> off \<le> mll \<or> length cur = 1 \<Longrightarrow>
   g \<in> set (pack iw mll cur off ws) \<Longrightarrow> iw + int (length (glue g)) \<le> mll \<or> length g = 1"
proof (induction ws arbitrary: cur off)
  case Nil
  then show ?case by simp
next
  case (Cons w ws)
  let ?po = "off + int (length (sep_for (last cur) w)) + int (length w)"
  show ?case
  proof (cases "?po \<le> mll")
    case True
    with Cons.prems(4) have g: "g \<in> set (pack iw mll (cur @ [w]) ?po ws)" by simp
    have "?po = iw + int (length (glue (cur @ [w])))"
      using Cons.prems(1,2) by (simp add: glue_snoc)
    with True g show ?thesis by (intro Cons.IH [of "cur @ [w]" ?po]) simp_all
  next
    case False
    with Cons.prems(4) consider "g = cur" | "g \<in> set (pack iw mll [w] (iw + int (length w)) ws)"
      by auto
    then show ?thesis
    proof cases
      case 1
      with Cons.prems(2,3) show ?thesis by auto
    next
      case 2
      then show ?thesis by (intro Cons.IH [of "[w]" "iw + int (length w)"]) simp_all
    qed
  qed
qed

lemma wrap_width:
  "g \<in> set (wrap iw mll ws) \<Longrightarrow> iw + int (length (glue g)) \<le> mll \<or> length g = 1"
  by (cases ws) (auto simp: wrap_def dest!: pack_width [rotated 3])

section \<open>Tokens\<close>

lemma findall_words_from_tokens:
  "\<forall>c\<in>set cur. \<not> is_space c \<Longrightarrow> w \<in> set (findall_words_from cur s) \<Longrightarrow> is_token w"
proof (induction s arbitrary: cur)
  case Nil
  then show ?case by (auto simp: is_token_def split: if_splits)
next
  case (Cons a s)
  show ?case
  proof (cases "is_space a")
    case True
    with Cons.prems(2) have "w = cur \<and> cur \<noteq> [] \<or> w \<in> set (findall_words_from [] s)"
      by (auto split: if_splits)
    then show ?thesis
    proof
      assume "w = cur \<and> cur \<noteq> []"
      with Cons.prems(1) show ?thesis by (simp add: is_token_def)
    next
      assume "w \<in> set (findall_words_from [] s)"
      then show ?thesis by (intro Cons.IH [of "[]"]) simp_all
    qed
  next
    case False
    with Cons.prems(2) have "w \<in> set (findall_words_from (cur @ [a]) s)" by simp
    with False Cons.prems(1) show ?thesis by (intro Cons.IH [of "cur @ [a]"]) simp_all
  qed
qed

lemma findall_words_tokens: "w \<in> set (findall_words s) \<Longrightarrow> is_token w"
  using findall_words_from_tokens [of "[]" w s] by (simp add: findall_words_def)

lemma findall_words_from_token:
  "\<forall>c\<in>set w. \<not> is_space c \<Longrightarrow> findall_words_from cur (w @ s) = findall_words_from (cur @ w) s"
  by (induction w arbitrary: cur) simp_all

lemma findall_words_from_sep:
  "cur \<noteq> [] \<Longrightarrow> findall_words_from cur (sep_for u v @ s) = cur # findall_words_from [] s"
  by (simp add: sep_for_def is_space_def)

lemma findall_words_from_glue:
  "g \<noteq> [] \<Longrightarrow> \<forall>w\<in>set g. is_token w \<Longrightarrow>
   findall_words_from [] (glue g @ s) = butlast g @ findall_words_from (last g) s"
proof (induction g rule: induct_list012)
  case 1
  then show ?case by simp
next
  case (2 w)
  then show ?case
    using findall_words_from_token [of w "[]" s] by (simp add: is_token_def)
next
  case (3 w v ws)
  from "3.prems" have w: "w \<noteq> []" "\<forall>c\<in>set w. \<not> is_space c" by (simp_all add: is_token_def)
  have "findall_words_from [] (w @ sep_for w v @ glue (v # ws) @ s)
      = findall_words_from ([] @ w) (sep_for w v @ glue (v # ws) @ s)"
    using w(2) by (rule findall_words_from_token)
  also have "\<dots> = w # findall_words_from [] (glue (v # ws) @ s)"
    using w(1) by (simp add: findall_words_from_sep)
  finally show ?case using "3.IH"(2) "3.prems" by simp
qed

lemma findall_words_glue:
  assumes "g \<noteq> []" "\<forall>w\<in>set g. is_token w"
  shows "findall_words (glue g) = g"
proof -
  from assms have "last g \<noteq> []" by (auto simp: is_token_def)
  with findall_words_from_glue [OF assms, of "[]"] assms(1) show ?thesis
    by (simp add: findall_words_def)
qed

lemma findall_words_from_nonempty: "cur \<noteq> [] \<Longrightarrow> findall_words_from cur s \<noteq> []"
  by (induction s arbitrary: cur) simp_all

lemma findall_words_from_has_word:
  "\<exists>c\<in>set s. \<not> is_space c \<Longrightarrow> findall_words_from cur s \<noteq> []"
  by (induction s arbitrary: cur) (auto simp: findall_words_from_nonempty)

section \<open>Long tokens\<close>

lemma pack_long:
  assumes "0 \<le> iw"
  shows "cur \<noteq> [] \<Longrightarrow> off = iw + int (length (glue cur)) \<Longrightarrow>
     \<forall>u\<in>set cur. mll < int (length u) \<longrightarrow> cur = [u] \<Longrightarrow>
     g \<in> set (pack iw mll cur off ws) \<Longrightarrow> u \<in> set g \<Longrightarrow> mll < int (length u) \<Longrightarrow> g = [u]"
proof (induction ws arbitrary: cur off)
  case Nil
  then show ?case by simp
next
  case (Cons w ws)
  let ?po = "off + int (length (sep_for (last cur) w)) + int (length w)"
  show ?case
  proof (cases "?po \<le> mll")
    case True
    with Cons.prems(4) have g: "g \<in> set (pack iw mll (cur @ [w]) ?po ws)" by simp
    have po: "?po = iw + int (length (glue (cur @ [w])))"
      using Cons.prems(1,2) by (simp add: glue_snoc)
    have short: "int (length v) \<le> mll" if "v \<in> set (cur @ [w])" for v
    proof -
      from that have "length v \<le> length (glue (cur @ [w]))" by (rule glue_length_member)
      with po True assms show ?thesis by linarith
    qed
    have "\<forall>v\<in>set (cur @ [w]). mll < int (length v) \<longrightarrow> cur @ [w] = [v]"
      using short by (meson not_less)
    with g po Cons.prems(5,6) show ?thesis
      by (intro Cons.IH [of "cur @ [w]" ?po]) simp_all
  next
    case False
    with Cons.prems(4) consider "g = cur" | "g \<in> set (pack iw mll [w] (iw + int (length w)) ws)"
      by auto
    then show ?thesis
    proof cases
      case 1
      with Cons.prems(3,5,6) show ?thesis by auto
    next
      case 2
      with Cons.prems(5,6) show ?thesis
        by (intro Cons.IH [of "[w]" "iw + int (length w)"]) simp_all
    qed
  qed
qed

lemma wrap_long:
  "0 \<le> iw \<Longrightarrow> g \<in> set (wrap iw mll ws) \<Longrightarrow> u \<in> set g \<Longrightarrow> mll < int (length u) \<Longrightarrow> g = [u]"
  by (cases ws) (auto simp: wrap_def dest!: pack_long [rotated 4])

section \<open>Paragraphs hold words\<close>

lemma match_lines_has_word:
  assumes "match_lines s = (p, r)" "p \<noteq> []"
  shows "\<exists>c\<in>set p. \<not> is_space c"
proof -
  from assms obtain l r0 where ml: "match_line s = Some (l, r0)"
    by (cases "match_line s") (auto simp: match_lines.simps [of s])
  with assms(1) obtain p' where p: "p = l @ p'"
    by (cases "match_lines r0") (auto simp: match_lines.simps [of s])
  from ml have "l = takeWhile line_char s @ [LF]" "takeWhile line_char s \<noteq> []"
    "\<not> is_space (last (takeWhile line_char s))"
    by (auto simp: match_line_def Let_def split: if_splits)
  then have "last (takeWhile line_char s) \<in> set l \<and> \<not> is_space (last (takeWhile line_char s))"
    by simp
  with p show ?thesis by auto
qed

lemma findall_paragraphs_from_match:
  "p \<in> set (findall_paragraphs_from b s) \<Longrightarrow> \<exists>s' r. match_lines s' = (p, r) \<and> p \<noteq> []"
proof (induction b s rule: findall_paragraphs_from.induct)
  case (1 bol s)
  obtain q r where m: "match_lines s = (q, r)" by (cases "match_lines s")
  have unf: "findall_paragraphs_from bol s =
     (if s = [] then []
      else if bol \<and> q \<noteq> [] then q # findall_paragraphs_from (last q = LF) r
      else findall_paragraphs_from (hd s = LF) (tl s))"
    by (subst findall_paragraphs_from.simps) (simp add: m)
  from "1.prems" unf have ne: "s \<noteq> []" by (auto split: if_splits)
  show ?case
  proof (cases "bol \<and> q \<noteq> []")
    case True
    with "1.prems" unf ne have "p = q \<or> p \<in> set (findall_paragraphs_from (last q = LF) r)"
      by simp
    then show ?thesis
    proof
      assume "p = q"
      with m True show ?thesis by blast
    next
      assume "p \<in> set (findall_paragraphs_from (last q = LF) r)"
      with True m ne show ?thesis by (intro "1.IH"(2) [of q r]) simp_all
    qed
  next
    case False
    with "1.prems" unf ne have mem: "p \<in> set (findall_paragraphs_from (hd s = LF) (tl s))"
      by simp
    show ?thesis
    proof (cases bol)
      case True
      with False have "q = []" by simp
      with True m ne mem show ?thesis by (intro "1.IH"(1) [of q r]) simp_all
    next
      case False
      with ne mem show ?thesis by (intro "1.IH"(3)) simp_all
    qed
  qed
qed

lemma paragraph_has_word:
  assumes "p \<in> set (findall_paragraphs s)"
  shows "findall_words p \<noteq> []"
proof -
  from assms obtain s' r where "match_lines s' = (p, r)" "p \<noteq> []"
    unfolding findall_paragraphs_def by (blast dest: findall_paragraphs_from_match)
  then have "\<exists>c\<in>set p. \<not> is_space c" by (rule match_lines_has_word)
  then show ?thesis unfolding findall_words_def by (rule findall_words_from_has_word)
qed

section \<open>The lines of the output\<close>

lemma splitlines_terminated:
  "\<forall>l\<in>set ls. \<forall>c\<in>set l. \<not> nl c \<Longrightarrow> splitlines (concat (map (\<lambda>l. l @ [LF]) ls)) = ls"
proof (induction ls)
  case Nil
  show ?case by (simp add: splitlines_def)
next
  case (Cons l ls)
  from Cons.prems have "splitlines_from [] (l @ LF # concat (map (\<lambda>l. l @ [LF]) ls))
      = splitlines_from ([] @ l) (LF # concat (map (\<lambda>l. l @ [LF]) ls))"
    by (intro splitlines_from_line) simp
  with Cons show ?case by (simp add: splitlines_def splitlines_from_LF)
qed

lemma join_terminated:
  "\<forall>ls\<in>set lss. ls \<noteq> [] \<Longrightarrow>
   py_join (ind @ [LF]) (map (\<lambda>ls. concat (map (\<lambda>l. l @ [LF]) ls)) lss)
     = concat (map (\<lambda>l. l @ [LF]) (py_join [ind] lss))"
  by (induction lss rule: induct_list012) simp_all

lemma py_join_member:
  "l \<in> set (py_join [sep] lss) \<Longrightarrow> l = sep \<or> (\<exists>ls\<in>set lss. l \<in> set ls)"
  by (induction lss rule: induct_list012) auto

lemma py_join_contains: "ls \<in> set lss \<Longrightarrow> l \<in> set ls \<Longrightarrow> l \<in> set (py_join sep lss)"
  by (induction lss rule: induct_list012) auto

lemma format_all_map:
  "\<forall>p\<in>set ps. format_paragraph ind iw mll p = Inr (f p) \<Longrightarrow>
   format_all ind iw mll ps = Inr (map f ps)"
  by (induction ps) simp_all

lemma get_indent_chars: "c \<in> set (get_indent t) \<Longrightarrow> c \<in> set INDENT_CHARS"
  by (auto simp: get_indent_takeWhile dest: set_takeWhileD)

lemma get_indent_width_nonneg: "1 \<le> tw \<Longrightarrow> 0 \<le> get_indent_width ind tw"
  by (simp add: get_indent_width_def)

lemma is_space_nl: "nl c \<Longrightarrow> is_space c"
  by (auto simp: nl_def is_space_def)

lemma glue_chars:
  "\<forall>w\<in>set g. is_token w \<Longrightarrow> c \<in> set (glue g) \<Longrightarrow> c = CHR '' '' \<or> \<not> is_space c"
  by (induction g rule: induct_list012) (auto simp: is_token_def sep_for_def split: if_splits)

lemma render_lines:
  "render ind gs = concat (map (\<lambda>l. l @ [LF]) (map (\<lambda>g. ind @ glue g) gs))"
  by (simp add: render_def comp_def)

lemma get_paragraphs_has_word: "p \<in> set (get_paragraphs t) \<Longrightarrow> findall_words p \<noteq> []"
  unfolding get_paragraphs_def by (rule paragraph_has_word)

lemma paragraph_format:
  assumes "1 \<le> tw" "p \<in> set (get_paragraphs t)"
  shows "format_paragraph ind (get_indent_width ind tw) mll p =
     Inr (concat (map (\<lambda>l. l @ [LF]) (paragraph_lines ind (get_indent_width ind tw) mll p)))"
proof -
  from assms(2) have "findall_words p \<noteq> []"
    by (rule get_paragraphs_has_word)
  moreover have "\<forall>w\<in>set (findall_words p). w \<noteq> []"
    using findall_words_tokens by (auto simp: is_token_def)
  ultimately show ?thesis
    using format_paragraph_render [OF get_indent_width_nonneg [OF assms(1)], where p = p
        and ind = ind and mll = mll]
    by (simp add: render_lines paragraph_lines_def)
qed

lemma paragraph_lines_nonempty:
  "p \<in> set (get_paragraphs t) \<Longrightarrow> paragraph_lines ind iw mll p \<noteq> []"
  using wrap_nonempty [OF get_paragraphs_has_word, where iw = iw and mll = mll]
  by (simp add: paragraph_lines_def)

lemma paragraph_line_form:
  assumes "l \<in> set (paragraph_lines ind iw mll p)"
  shows "\<exists>g. g \<in> set (wrap iw mll (findall_words p)) \<and> g \<noteq> [] \<and> (\<forall>w\<in>set g. is_token w)
     \<and> l = ind @ glue g"
proof -
  from assms obtain g where g: "g \<in> set (wrap iw mll (findall_words p))" "l = ind @ glue g"
    by (auto simp: paragraph_lines_def)
  from g(1) have "set g \<subseteq> set (concat (wrap iw mll (findall_words p)))" by auto
  then have "\<forall>w\<in>set g. is_token w"
    by (auto simp: wrap_concat intro: findall_words_tokens)
  with g wrap_groups_nonempty [OF g(1)] show ?thesis by blast
qed

lemma output_line_form:
  assumes "l \<in> set (output_lines t mll tw)"
  shows "l = get_indent t \<or>
     (\<exists>p\<in>set (get_paragraphs t). \<exists>g\<in>set (wrap (get_indent_width (get_indent t) tw) mll (findall_words p)).
        g \<noteq> [] \<and> (\<forall>w\<in>set g. is_token w) \<and> l = get_indent t @ glue g)"
proof -
  from assms have "l = get_indent t \<or>
      (\<exists>ls\<in>set (map (paragraph_lines (get_indent t) (get_indent_width (get_indent t) tw) mll)
          (get_paragraphs t)). l \<in> set ls)"
    unfolding output_lines_def by (rule py_join_member)
  then consider "l = get_indent t" |
    p where "p \<in> set (get_paragraphs t)"
      "l \<in> set (paragraph_lines (get_indent t) (get_indent_width (get_indent t) tw) mll p)"
    by auto
  then show ?thesis
  proof cases
    case 1
    then show ?thesis by simp
  next
    case 2
    with paragraph_line_form [OF 2(2)] show ?thesis by blast
  qed
qed

lemma output_lines_nl_free:
  assumes "l \<in> set (output_lines t mll tw)" "c \<in> set l"
  shows "\<not> nl c"
proof -
  have ind: "\<not> nl c" if "c \<in> set (get_indent t)" for c
    using that get_indent_chars [of c t] INDENT_CHARS_not_nl [of c] by (auto simp: nl_def)
  from output_line_form [OF assms(1)] show ?thesis
  proof
    assume "l = get_indent t"
    with assms(2) ind show ?thesis by simp
  next
    assume "\<exists>p\<in>set (get_paragraphs t). \<exists>g\<in>set (wrap (get_indent_width (get_indent t) tw) mll (findall_words p)).
        g \<noteq> [] \<and> (\<forall>w\<in>set g. is_token w) \<and> l = get_indent t @ glue g"
    then obtain g where g: "\<forall>w\<in>set g. is_token w" "l = get_indent t @ glue g" by blast
    with assms(2) consider "c \<in> set (get_indent t)" | "c \<in> set (glue g)" by auto
    then show ?thesis
    proof cases
      case 1
      then show ?thesis by (rule ind)
    next
      case 2
      with glue_chars [OF g(1)] have "c = CHR '' '' \<or> \<not> is_space c" by blast
      then show ?thesis using is_space_nl [of c] by (auto simp: nl_def LF_def CR_def)
    qed
  qed
qed

lemma reflow_output:
  assumes "1 \<le> tw"
  shows "reflow t mll tw = Inr (concat (map (\<lambda>l. l @ [LF]) (output_lines t mll tw)))"
proof -
  let ?ind = "get_indent t" and ?iw = "get_indent_width (get_indent t) tw"
  let ?ps = "get_paragraphs t"
  let ?f = "\<lambda>p. concat (map (\<lambda>l. l @ [LF]) (paragraph_lines ?ind ?iw mll p))"
  have "format_all ?ind ?iw mll ?ps = Inr (map ?f ?ps)"
    using paragraph_format [OF assms] by (intro format_all_map) blast
  then have "reflow t mll tw = Inr (py_join (?ind @ [LF]) (map ?f ?ps))"
    by (simp add: reflow_def Let_def)
  also have "py_join (?ind @ [LF]) (map ?f ?ps) =
      py_join (?ind @ [LF]) (map (\<lambda>ls. concat (map (\<lambda>l. l @ [LF]) ls)) (map (paragraph_lines ?ind ?iw mll) ?ps))"
    by (simp add: comp_def)
  also have "\<dots> = concat (map (\<lambda>l. l @ [LF]) (py_join [?ind] (map (paragraph_lines ?ind ?iw mll) ?ps)))"
    by (rule join_terminated) (auto simp: paragraph_lines_nonempty)
  finally show ?thesis by (simp add: output_lines_def)
qed

lemma reflow_splitlines:
  assumes "1 \<le> tw"
  shows "\<exists>out. reflow t mll tw = Inr out \<and> splitlines out = output_lines t mll tw"
  using reflow_output [OF assms, of t mll] splitlines_terminated [of "output_lines t mll tw"]
    output_lines_nl_free [of _ t mll tw]
  by auto

lemma glue_nonempty: "g \<noteq> [] \<Longrightarrow> \<forall>w\<in>set g. is_token w \<Longrightarrow> glue g \<noteq> []"
  using glue_last [of g] by (auto simp: is_token_def)

lemma glue_no_tab: "\<forall>w\<in>set g. is_token w \<Longrightarrow> count_list (glue g) TAB = 0"
proof -
  assume "\<forall>w\<in>set g. is_token w"
  then have "c \<in> set (glue g) \<Longrightarrow> c = CHR '' '' \<or> \<not> is_space c" for c
    by (rule glue_chars)
  then have "TAB \<notin> set (glue g)"
    by (auto simp: is_space_def TAB_def)
  then show ?thesis by (simp add: count_list_0_iff)
qed

lemma column_width_line:
  "\<forall>w\<in>set g. is_token w \<Longrightarrow>
   column_width (ind @ glue g) tw = get_indent_width ind tw + int (length (glue g))"
  by (simp add: column_width_def get_indent_width_def glue_no_tab)

lemma concat_map_py_join:
  "f sep = [] \<Longrightarrow>
   concat (map f (py_join [sep] lss)) = concat (map (\<lambda>ls. concat (map f ls)) lss)"
  by (induction lss rule: induct_list012) simp_all

lemma paragraph_lines_tokens:
  "concat (map (\<lambda>l. findall_words (drop (length ind) l)) (paragraph_lines ind iw mll p))
     = findall_words p"
proof -
  have "findall_words (drop (length ind) (ind @ glue g)) = g"
    if "g \<in> set (wrap iw mll (findall_words p))" for g
  proof -
    from that have "set g \<subseteq> set (concat (wrap iw mll (findall_words p)))" by auto
    then have "\<forall>w\<in>set g. is_token w"
      by (auto simp: wrap_concat intro: findall_words_tokens)
    with wrap_groups_nonempty [OF that] show ?thesis by (simp add: findall_words_glue)
  qed
  then have "map (\<lambda>l. findall_words (drop (length ind) l)) (paragraph_lines ind iw mll p)
      = wrap iw mll (findall_words p)"
    by (simp add: paragraph_lines_def comp_def map_idI)
  then show ?thesis by (simp add: wrap_concat)
qed

section \<open>A final line without newline is in no paragraph\<close>

lemma match_line_append:
  assumes "LF \<notin> set x"
  shows "match_line (s @ x) = map_option (\<lambda>(l, r). (l, r @ x)) (match_line s)"
proof (cases "\<forall>c\<in>set s. line_char c")
  case True
  then have t: "takeWhile line_char (s @ x) = s @ takeWhile line_char x"
    and d: "dropWhile line_char (s @ x) = dropWhile line_char x"
    and ds: "dropWhile line_char s = []"
    by simp_all
  have "dropWhile line_char x = [] \<or> hd (dropWhile line_char x) \<noteq> LF"
    using assms by (metis hd_in_set set_dropWhileD)
  then have "match_line (s @ x) = None"
    unfolding match_line_def Let_def t d by auto
  moreover have "match_line s = None"
    unfolding match_line_def Let_def ds by simp
  ultimately show ?thesis by simp
next
  case False
  then have t: "takeWhile line_char (s @ x) = takeWhile line_char s"
    and d: "dropWhile line_char (s @ x) = dropWhile line_char s @ x"
    and ds: "dropWhile line_char s \<noteq> []"
    by (simp_all add: takeWhile_append1 dropWhile_append1)
       (metis takeWhile_append1 dropWhile_append1)+
  show ?thesis
    unfolding match_line_def Let_def t d using ds by simp
qed


lemma match_lines_append:
  "LF \<notin> set x \<Longrightarrow> match_lines (s @ x) = (case match_lines s of (p, r) \<Rightarrow> (p, r @ x))"
proof (induction s rule: match_lines.induct)
  case (1 s)
  show ?case
  proof (cases "match_line s")
    case None
    with "1.prems" have "match_line (s @ x) = None" by (simp add: match_line_append)
    with None show ?thesis
      by (simp add: match_lines.simps [of s] match_lines.simps [of "s @ x"])
  next
    case (Some a)
    obtain l r0 where a: "a = (l, r0)" by (cases a)
    with Some "1.prems" have m: "match_line (s @ x) = Some (l, r0 @ x)"
      by (simp add: match_line_append)
    from "1.IH" [OF Some a [symmetric] "1.prems"]
    have "match_lines (r0 @ x) = (case match_lines r0 of (p, r) \<Rightarrow> (p, r @ x))" .
    with Some a m show ?thesis
      by (simp add: match_lines.simps [of s] match_lines.simps [of "s @ x"] split: prod.splits)
  qed
qed

lemma match_lines_no_LF: "LF \<notin> set x \<Longrightarrow> match_lines x = ([], x)"
  using match_lines_append [of x "[]"] by (simp add: match_lines.simps [of "[]"] match_line_def)

lemma findall_paragraphs_from_no_LF:
  "LF \<notin> set x \<Longrightarrow> findall_paragraphs_from b x = []"
proof (induction x arbitrary: b)
  case Nil
  show ?case by (simp add: findall_paragraphs_from.simps [of b "[]"])
next
  case (Cons c x)
  then have "match_lines (c # x) = ([], c # x)" by (intro match_lines_no_LF) simp
  with Cons show ?case
    by (simp add: findall_paragraphs_from.simps [of b "c # x"])
qed

lemma match_lines_ends_LF: "match_lines s = (p, r) \<Longrightarrow> p \<noteq> [] \<Longrightarrow> last p = LF"
proof (induction s arbitrary: p r rule: match_lines.induct)
  case (1 s)
  from "1.prems" obtain l r0 where ml: "match_line s = Some (l, r0)"
    by (cases "match_line s") (auto simp: match_lines.simps [of s])
  obtain p' r' where m: "match_lines r0 = (p', r')" by (cases "match_lines r0")
  with "1.prems" ml have p: "p = l @ p'" by (simp add: match_lines.simps [of s])
  from ml have l: "l \<noteq> []" "last l = LF"
    by (auto simp: match_line_def Let_def split: if_splits)
  show ?case
  proof (cases "p' = []")
    case True
    with p l show ?thesis by simp
  next
    case False
    with "1.IH" [OF ml refl m] p show ?thesis by simp
  qed
qed

lemma findall_paragraphs_from_append:
  "LF \<notin> set x \<Longrightarrow> findall_paragraphs_from b (s @ x) = findall_paragraphs_from b s"
proof (induction b s rule: findall_paragraphs_from.induct)
  case (1 bol s)
  show ?case
  proof (cases "s = []")
    case True
    with "1.prems" show ?thesis
      by (simp add: findall_paragraphs_from_no_LF findall_paragraphs_from.simps [of bol "[]"])
  next
    case ne: False
    obtain q r where m: "match_lines s = (q, r)" by (cases "match_lines s")
    with "1.prems" have mx: "match_lines (s @ x) = (q, r @ x)" by (simp add: match_lines_append)
    have unf: "findall_paragraphs_from bol s =
       (if bol \<and> q \<noteq> [] then q # findall_paragraphs_from (last q = LF) r
        else findall_paragraphs_from (hd s = LF) (tl s))"
      using ne by (subst findall_paragraphs_from.simps) (simp add: m)
    have unfx: "findall_paragraphs_from bol (s @ x) =
       (if bol \<and> q \<noteq> [] then q # findall_paragraphs_from (last q = LF) (r @ x)
        else findall_paragraphs_from (hd s = LF) (tl s @ x))"
      using ne by (subst findall_paragraphs_from.simps) (simp add: mx)
    show ?thesis
    proof (cases "bol \<and> q \<noteq> []")
      case True
      with ne m "1.prems" have "findall_paragraphs_from (last q = LF) (r @ x)
          = findall_paragraphs_from (last q = LF) r"
        by (intro "1.IH"(2) [of q r]) simp_all
      with True unf unfx show ?thesis by simp
    next
      case False
      have "findall_paragraphs_from (hd s = LF) (tl s @ x) = findall_paragraphs_from (hd s = LF) (tl s)"
      proof (cases bol)
        case True
        with False have "q = []" by simp
        with True ne m "1.prems" show ?thesis by (intro "1.IH"(1) [of q r]) simp_all
      next
        case False
        with ne "1.prems" show ?thesis by (intro "1.IH"(3)) simp_all
      qed
      with False show ?thesis by (simp only: unf unfx if_False)
    qed
  qed
qed

lemma py_join_butlast:
  "ls \<noteq> [] \<Longrightarrow> py_join [LF] ls = concat (map (\<lambda>l. l @ [LF]) (butlast ls)) @ last ls"
  by (induction ls rule: induct_list012) simp_all

lemma splitlines_from_add_LF:
  "s \<noteq> [] \<Longrightarrow> last s \<noteq> LF \<Longrightarrow> splitlines_from cur (s @ [LF]) = splitlines_from cur s"
proof (induction cur s rule: splitlines_from.induct)
  case (1 cur)
  then show ?case by simp
next
  case (2 cur c)
  then show ?case by (simp add: LF_def CR_def)
next
  case (3 cur c d cs)
  show ?case
  proof (cases "c = CR \<and> d = LF")
    case True
    with "3.prems" have cs: "cs \<noteq> []" "last cs \<noteq> LF" by (auto split: if_splits)
    with True "3.IH"(1) have "splitlines_from [] (cs @ [LF]) = splitlines_from [] cs" by simp
    with True show ?thesis by simp
  next
    case False
    from "3.prems" have d: "last (d # cs) \<noteq> LF" by simp
    show ?thesis
    proof (cases "c = LF \<or> c = CR")
      case True
      with False d "3.IH"(2) have "splitlines_from [] ((d # cs) @ [LF]) = splitlines_from [] (d # cs)"
        by simp
      with True False show ?thesis by auto
    next
      case nonl: False
      with False d "3.IH"(3) have "splitlines_from (cur @ [c]) ((d # cs) @ [LF]) = splitlines_from (cur @ [c]) (d # cs)"
        by simp
      with nonl False show ?thesis by auto
    qed
  qed
qed

lemma splitlines_from_nonempty: "s \<noteq> [] \<Longrightarrow> splitlines_from cur s \<noteq> []"
  by (induction cur s rule: splitlines_from.induct) simp_all

lemma get_paragraphs_butlast:
  "get_paragraphs t = findall_paragraphs
     (concat (map (\<lambda>l. lstrip INDENT_CHARS l @ [LF]) (butlast (splitlines (t @ [LF])))))"
proof -
  let ?ls = "map (lstrip INDENT_CHARS) (splitlines (t @ [LF]))"
  have ne: "?ls \<noteq> []" by (simp add: splitlines_def splitlines_from_nonempty)
  from ne have ne': "splitlines (t @ [LF]) \<noteq> []" by simp
  then have "last ?ls = lstrip INDENT_CHARS (last (splitlines (t @ [LF])))"
    by (simp add: last_map)
  then have "c \<in> set (last ?ls) \<Longrightarrow> \<not> nl c" for c
    using last_in_set [OF ne'] lstrip_set [of c INDENT_CHARS "last (splitlines (t @ [LF]))"]
      splitlines_nl_free [of "last (splitlines (t @ [LF]))" "t @ [LF]" c]
    by simp
  then have "LF \<notin> set (last ?ls)" by (auto simp: nl_def)
  then have "findall_paragraphs (concat (map (\<lambda>l. l @ [LF]) (butlast ?ls)) @ last ?ls)
      = findall_paragraphs (concat (map (\<lambda>l. l @ [LF]) (butlast ?ls)))"
    unfolding findall_paragraphs_def by (rule findall_paragraphs_from_append)
  then show ?thesis
    by (simp add: get_paragraphs_def remove_indentation_def py_join_butlast [OF ne]
        map_butlast comp_def)
qed


lemma splitlines_from_hd:
  "splitlines_from cur s \<noteq> [] \<Longrightarrow>
   hd (splitlines_from cur s) = cur @ takeWhile (\<lambda>c. \<not> nl c) s"
proof -
  assume ne: "splitlines_from cur s \<noteq> []"
  let ?s1 = "takeWhile (\<lambda>c. \<not> nl c) s" and ?r = "dropWhile (\<lambda>c. \<not> nl c) s"
  have "splitlines_from cur (?s1 @ ?r) = splitlines_from (cur @ ?s1) ?r"
    by (intro splitlines_from_line) (auto dest: set_takeWhileD)
  then have eq: "splitlines_from cur s = splitlines_from (cur @ ?s1) ?r" by simp
  show ?thesis
  proof (cases ?r)
    case Nil
    with eq ne show ?thesis by (auto split: if_splits)
  next
    case (Cons c r)
    then have "nl c" using hd_dropWhile [of "\<lambda>c. \<not> nl c" s] by auto
    then have "hd (splitlines_from (cur @ ?s1) (c # r)) = cur @ ?s1"
      by (cases r) (auto simp: nl_def)
    with eq Cons show ?thesis by simp
  qed
qed

lemma takeWhile_takeWhile:
  "(\<And>c. P c \<Longrightarrow> Q c) \<Longrightarrow> takeWhile P (takeWhile Q xs) = takeWhile P xs"
  by (induction xs) auto

lemma get_indent_first_line:
  assumes "t \<noteq> []"
  shows "get_indent t = takeWhile (\<lambda>c. c \<in> set INDENT_CHARS) (hd (splitlines t))"
proof -
  from assms have "splitlines_from [] t \<noteq> []" by (rule splitlines_from_nonempty)
  then have "hd (splitlines t) = takeWhile (\<lambda>c. \<not> nl c) t"
    using splitlines_from_hd [of "[]" t] by (simp add: splitlines_def)
  moreover have "takeWhile (\<lambda>c. c \<in> set INDENT_CHARS) (takeWhile (\<lambda>c. \<not> nl c) t)
      = takeWhile (\<lambda>c. c \<in> set INDENT_CHARS) t"
    using INDENT_CHARS_not_nl by (intro takeWhile_takeWhile) (auto simp: nl_def)
  ultimately show ?thesis by (simp add: get_indent_takeWhile)
qed

lemma reflow_without_final_line:
  assumes "t \<noteq> []" "last t \<noteq> LF"
  shows "get_paragraphs t = findall_paragraphs
           (concat (map (\<lambda>l. lstrip INDENT_CHARS l @ [LF]) (butlast (splitlines t))))"
    and "reflow t mll tw = reflow (concat (map (\<lambda>l. l @ [LF]) (butlast (splitlines t)))) mll tw"
proof -
  let ?L = "splitlines t"
  let ?t' = "concat (map (\<lambda>l. l @ [LF]) (butlast ?L))"
  from assms have same: "splitlines (t @ [LF]) = ?L"
    by (simp add: splitlines_def splitlines_from_add_LF)
  from assms(1) have L: "?L \<noteq> []" by (simp add: splitlines_def splitlines_from_nonempty)
  show p: "get_paragraphs t = findall_paragraphs
      (concat (map (\<lambda>l. lstrip INDENT_CHARS l @ [LF]) (butlast ?L)))"
    using get_paragraphs_butlast [of t] same by simp
  have free: "\<forall>l\<in>set (butlast ?L @ [[]]). \<forall>c\<in>set l. \<not> nl c"
    by (auto dest: in_set_butlastD splitlines_nl_free)
  have "?t' @ [LF] = concat (map (\<lambda>l. l @ [LF]) (butlast ?L @ [[]]))" by simp
  then have "splitlines (?t' @ [LF]) = butlast ?L @ [[]]"
    using splitlines_terminated [OF free] by simp
  then have p': "get_paragraphs ?t' = get_paragraphs t"
    using get_paragraphs_butlast [of ?t'] p by simp
  show "reflow t mll tw = reflow ?t' mll tw"
  proof (cases "butlast ?L = []")
    case True
    with p have "get_paragraphs t = []"
      by (simp add: findall_paragraphs_def findall_paragraphs_from.simps [of True "[]"])
    with p' show ?thesis by (simp add: reflow_def Let_def)
  next
    case False
    then have t': "?t' \<noteq> []" by (cases "butlast ?L") auto
    have "\<forall>l\<in>set (butlast ?L). \<forall>c\<in>set l. \<not> nl c"
      by (auto dest: in_set_butlastD splitlines_nl_free)
    then have "splitlines ?t' = butlast ?L" by (rule splitlines_terminated)
    with False have "hd (splitlines ?t') = hd ?L"
      by (cases ?L) (auto split: if_splits)
    with assms(1) t' have "get_indent ?t' = get_indent t"
      by (simp add: get_indent_first_line)
    with p' show ?thesis by (simp add: reflow_def Let_def)
  qed
qed

section \<open>The output is re-wrapped to itself\<close>

lemma not_line_char_LF: "\<not> line_char LF"
  by (simp add: line_char_def is_space_def LF_def TAB_def)

lemma match_line_body:
  assumes "line_body b"
  shows "match_line (b @ LF # rest) = Some (b @ [LF], rest)"
proof -
  from assms have all: "\<And>x. x \<in> set b \<Longrightarrow> line_char x" by (simp add: line_body_def)
  have t: "takeWhile line_char (b @ LF # rest) = b"
    using all by (simp add: takeWhile_append2 not_line_char_LF)
  have d: "dropWhile line_char (b @ LF # rest) = LF # rest"
    using all by (simp add: dropWhile_append2 not_line_char_LF)
  from assms show ?thesis
    unfolding match_line_def Let_def t d by (simp add: line_body_def)
qed

lemma match_line_blank: "rest = [] \<or> hd rest = LF \<Longrightarrow> match_line rest = None"
  by (cases rest) (auto simp: match_line_def not_line_char_LF)

lemma match_lines_bodies:
  assumes "rest = [] \<or> hd rest = LF"
  shows "\<forall>b\<in>set bs. line_body b \<Longrightarrow>
     match_lines (concat (map (\<lambda>b. b @ [LF]) bs) @ rest) = (concat (map (\<lambda>b. b @ [LF]) bs), rest)"
proof (induction bs)
  case Nil
  from assms show ?case
    by (simp add: match_lines.simps [of rest] match_line_blank)
next
  case (Cons b bs)
  let ?s = "concat (map (\<lambda>b. b @ [LF]) bs) @ rest"
  from Cons.prems have "match_line (b @ LF # ?s) = Some (b @ [LF], ?s)"
    by (intro match_line_body) simp
  with Cons show ?case
    by (simp add: match_lines.simps [of "b @ LF # ?s"])
qed

lemma glue_line_body:
  assumes "g \<noteq> []" "\<forall>w\<in>set g. is_token w"
  shows "line_body (glue g)"
proof -
  from assms have "glue g \<noteq> []" by (rule glue_nonempty)
  moreover have "line_char c" if "c \<in> set (glue g)" for c
    using glue_chars [OF assms(2) that] by (auto simp: line_char_def)
  moreover have "\<not> is_space (last (glue g))"
  proof -
    from assms have "last (glue g) = last (last g)"
      using glue_last [of g] by (auto simp: is_token_def)
    moreover from assms have "is_token (last g)" by simp
    ultimately show ?thesis by (simp add: is_token_def)
  qed
  ultimately show ?thesis by (simp add: line_body_def)
qed

lemma findall_paragraphs_bodies:
  "\<forall>B\<in>set Bss. B \<noteq> [] \<and> (\<forall>b\<in>set B. line_body b) \<Longrightarrow>
   findall_paragraphs_from True (concat (map (\<lambda>b. b @ [LF]) (py_join [[]] Bss)))
     = map (\<lambda>B. concat (map (\<lambda>b. b @ [LF]) B)) Bss"
proof (induction Bss rule: induct_list012)
  case 1
  show ?case by (simp add: findall_paragraphs_from.simps [of True "[]"])
next
  case (2 B)
  let ?p = "concat (map (\<lambda>b. b @ [LF]) B)"
  from 2 have m: "match_lines (?p @ []) = (?p, [])" by (intro match_lines_bodies) simp_all
  from 2 have ne: "?p \<noteq> []" by (cases B) auto
  with m show ?case
    by (simp add: findall_paragraphs_from.simps [of True ?p]
        findall_paragraphs_from.simps [of _ "[]"])
next
  case (3 B B' Bss)
  let ?p = "concat (map (\<lambda>b. b @ [LF]) B)"
  let ?s = "concat (map (\<lambda>b. b @ [LF]) (py_join [[]] (B' # Bss)))"
  from "3.prems" have m: "match_lines (?p @ LF # ?s) = (?p, LF # ?s)"
    by (intro match_lines_bodies) simp_all
  from "3.prems" have ne: "?p \<noteq> []" by (cases B) auto
  from m ne have l: "last ?p = LF" by (rule match_lines_ends_LF)
  have blank: "match_lines (LF # ?s) = ([], LF # ?s)"
    by (simp add: match_lines.simps [of "LF # ?s"] match_line_blank)
  from "3.IH"(2) "3.prems" have ih: "findall_paragraphs_from True ?s
      = map (\<lambda>B. concat (map (\<lambda>b. b @ [LF]) B)) (B' # Bss)" by simp
  have "findall_paragraphs_from True (?p @ LF # ?s) = ?p # findall_paragraphs_from True (LF # ?s)"
    using m ne l by (subst findall_paragraphs_from.simps) simp
  also have "findall_paragraphs_from True (LF # ?s) = findall_paragraphs_from True ?s"
    using blank by (subst findall_paragraphs_from.simps) simp
  finally show ?case using ih by simp
qed

lemma findall_words_bodies:
  "\<forall>g\<in>set gs. g \<noteq> [] \<and> (\<forall>w\<in>set g. is_token w) \<Longrightarrow>
   findall_words_from [] (concat (map (\<lambda>g. glue g @ [LF]) gs)) = concat gs"
proof (induction gs)
  case Nil
  show ?case by simp
next
  case (Cons g gs)
  let ?s = "concat (map (\<lambda>g. glue g @ [LF]) gs)"
  from Cons.prems have g: "g \<noteq> []" "\<forall>w\<in>set g. is_token w" by simp_all
  then have lg: "last g \<noteq> []" by (auto simp: is_token_def)
  from g have "findall_words_from [] (glue g @ LF # ?s) = butlast g @ findall_words_from (last g) (LF # ?s)"
    by (rule findall_words_from_glue)
  also have "findall_words_from (last g) (LF # ?s) = last g # findall_words_from [] ?s"
    using lg by (simp add: is_space_def)
  finally show ?case using Cons g by simp
qed

lemma map_py_join: "map f (py_join [sep] lss) = py_join [f sep] (map (map f) lss)"
  by (induction lss rule: induct_list012) simp_all

lemma format_paragraph_words:
  "findall_words p = findall_words q \<Longrightarrow>
   format_paragraph ind iw mll p = format_paragraph ind iw mll q"
  by (simp add: format_paragraph_def)

lemma format_all_cong:
  "\<forall>p\<in>set ps. format_paragraph ind iw mll (h p) = format_paragraph ind iw mll p \<Longrightarrow>
   format_all ind iw mll (map h ps) = format_all ind iw mll ps"
  by (induction ps) (simp_all split: sum.splits)

lemma reflow_empty: "reflow [] mll tw = Inr []"
  by (simp add: reflow_def get_paragraphs_def remove_indentation_def splitlines_def
      lstrip_def Let_def findall_paragraphs_def findall_paragraphs_from.simps [of True "[]"])

lemma wrap_groups_tokens:
  assumes "g \<in> set (wrap iw mll (findall_words p))"
  shows "g \<noteq> [] \<and> (\<forall>w\<in>set g. is_token w)"
proof -
  from assms have "set g \<subseteq> set (concat (wrap iw mll (findall_words p)))" by auto
  then have "\<forall>w\<in>set g. is_token w"
    by (auto simp: wrap_concat intro: findall_words_tokens)
  with wrap_groups_nonempty [OF assms] show ?thesis by simp
qed

lemma reflow_again:
  assumes tw: "1 \<le> tw"
    and strip: "\<forall>l\<in>set (output_lines t mll tw).
        lstrip INDENT_CHARS l = drop (length (get_indent t)) l"
  shows "reflow (concat (map (\<lambda>l. l @ [LF]) (output_lines t mll tw))) mll tw
     = reflow t mll tw"
proof (cases "output_lines t mll tw = []")
  case True
  with reflow_output [OF tw, of t mll] show ?thesis by (simp add: reflow_empty)
next
  case ne: False
  let ?ind = "get_indent t" and ?iw = "get_indent_width (get_indent t) tw"
  let ?ps = "get_paragraphs t"
  let ?L = "output_lines t mll tw"
  let ?out = "concat (map (\<lambda>l. l @ [LF]) ?L)"
  let ?G = "\<lambda>p. wrap ?iw mll (findall_words p)"
  let ?P' = "\<lambda>p. concat (map (\<lambda>g. glue g @ [LF]) (?G p))"
  have free: "\<forall>l\<in>set ?L. \<forall>c\<in>set l. \<not> nl c"
    using output_lines_nl_free by blast
  have pre: "prefix ?ind l" if "l \<in> set ?L" for l
    using output_line_form [OF that] by auto
  \<comment> \<open>the lines of the output, stripped, are the bodies of the paragraphs' lines\<close>
  have "map (lstrip INDENT_CHARS) ?L = map (drop (length ?ind)) ?L"
    using strip by simp
  also have "\<dots> = py_join [[]] (map (map (drop (length ?ind)))
      (map (paragraph_lines ?ind ?iw mll) ?ps))"
    unfolding output_lines_def by (simp add: map_py_join)
  also have "map (map (drop (length ?ind))) (map (paragraph_lines ?ind ?iw mll) ?ps)
      = map (\<lambda>p. map glue (?G p)) ?ps"
    by (simp add: paragraph_lines_def comp_def)
  finally have stripped: "map (lstrip INDENT_CHARS) ?L = py_join [[]] (map (\<lambda>p. map glue (?G p)) ?ps)" .
  \<comment> \<open>the paragraphs of the output\<close>
  have "?out @ [LF] = concat (map (\<lambda>l. l @ [LF]) (?L @ [[]]))" by simp
  moreover have "\<forall>l\<in>set (?L @ [[]]). \<forall>c\<in>set l. \<not> nl c" using free by simp
  ultimately have "splitlines (?out @ [LF]) = ?L @ [[]]"
    using splitlines_terminated [of "?L @ [[]]"] by simp
  then have "get_paragraphs ?out = findall_paragraphs
      (concat (map (\<lambda>l. lstrip INDENT_CHARS l @ [LF]) ?L))"
    using get_paragraphs_butlast [of ?out] by simp
  also have "concat (map (\<lambda>l. lstrip INDENT_CHARS l @ [LF]) ?L)
      = concat (map (\<lambda>b. b @ [LF]) (map (lstrip INDENT_CHARS) ?L))"
    by (simp add: comp_def)
  also have "findall_paragraphs \<dots> = map (\<lambda>B. concat (map (\<lambda>b. b @ [LF]) B)) (map (\<lambda>p. map glue (?G p)) ?ps)"
    unfolding stripped findall_paragraphs_def
  proof (rule findall_paragraphs_bodies, intro ballI conjI)
    fix B assume "B \<in> set (map (\<lambda>p. map glue (?G p)) ?ps)"
    then obtain p where p: "p \<in> set ?ps" "B = map glue (?G p)" by auto
    from p show "B \<noteq> []"
      using wrap_nonempty [OF get_paragraphs_has_word, of p t ?iw mll] by simp
    fix b assume "b \<in> set B"
    with p obtain g where "g \<in> set (?G p)" "b = glue g" by auto
    with wrap_groups_tokens [of g ?iw mll p] show "line_body b"
      by (simp add: glue_line_body)
  qed
  finally have paras: "get_paragraphs ?out = map ?P' ?ps" by (simp add: comp_def)
  \<comment> \<open>their words\<close>
  have words: "findall_words (?P' p) = findall_words p" for p
    using findall_words_bodies [of "?G p"] wrap_groups_tokens [of _ ?iw mll p]
    by (simp add: findall_words_def [of "?P' p"] wrap_concat)
  have fmt: "format_all ?ind ?iw mll (map ?P' ?ps) = format_all ?ind ?iw mll ?ps"
    by (intro format_all_cong ballI format_paragraph_words words)
  \<comment> \<open>the indent of the output\<close>
  from ne have out_ne: "?out \<noteq> []" by (cases ?L) auto
  from ne have hd: "hd ?L \<in> set ?L" by simp
  from free have "splitlines ?out = ?L" by (rule splitlines_terminated)
  with out_ne have "get_indent ?out = takeWhile (\<lambda>c. c \<in> set INDENT_CHARS) (hd ?L)"
    by (simp add: get_indent_first_line)
  moreover have "takeWhile (\<lambda>c. c \<in> set INDENT_CHARS) (hd ?L) = ?ind"
  proof -
    from strip hd have "dropWhile (\<lambda>c. c \<in> set INDENT_CHARS) (hd ?L) = drop (length ?ind) (hd ?L)"
      by (simp add: lstrip_def)
    then have "takeWhile (\<lambda>c. c \<in> set INDENT_CHARS) (hd ?L) @ drop (length ?ind) (hd ?L)
        = take (length ?ind) (hd ?L) @ drop (length ?ind) (hd ?L)"
      by (metis takeWhile_dropWhile_id append_take_drop_id)
    then have "takeWhile (\<lambda>c. c \<in> set INDENT_CHARS) (hd ?L) = take (length ?ind) (hd ?L)"
      by (simp only: append_same_eq)
    with pre [OF hd] show ?thesis by (auto simp: prefix_def)
  qed
  ultimately have ind: "get_indent ?out = ?ind" by simp
  show ?thesis
    by (simp add: reflow_def [of ?out] reflow_def [of t] Let_def ind paras fmt)
qed

section \<open>The paragraphs are the runs of matching lines\<close>

lemma runs_from_split:
  "runs_from cur ss =
     (if cur @ takeWhile line_body ss = [] then [] else [cur @ takeWhile line_body ss])
       @ runs_from [] (dropWhile line_body ss)"
  by (induction ss arbitrary: cur) simp_all

lemma match_line_not_body:
  assumes "LF \<notin> set s" "\<not> line_body s"
  shows "match_line (s @ LF # rest) = None"
proof (cases "\<forall>c\<in>set s. line_char c")
  case True
  then have t: "takeWhile line_char (s @ LF # rest) = s"
    by (simp add: takeWhile_append2 not_line_char_LF)
  from True assms(2) have "s = [] \<or> is_space (last s)" by (auto simp: line_body_def)
  then show ?thesis unfolding match_line_def Let_def t by auto
next
  case False
  then have d: "dropWhile line_char (s @ LF # rest) = dropWhile line_char s @ LF # rest"
    and ne: "dropWhile line_char s \<noteq> []"
    by (simp_all add: dropWhile_append1) (metis dropWhile_append1)
  from ne have "hd (dropWhile line_char s) \<in> set s"
    by (metis hd_in_set set_dropWhileD)
  with assms(1) have "hd (dropWhile line_char s) \<noteq> LF" by metis
  with ne show ?thesis unfolding match_line_def Let_def d by simp
qed

lemma match_lines_unlines:
  "\<forall>s\<in>set ss. LF \<notin> set s \<Longrightarrow>
   match_lines (unlines ss) = (unlines (takeWhile line_body ss), unlines (dropWhile line_body ss))"
proof (induction ss)
  case Nil
  show ?case by (simp add: match_lines.simps [of "[]"] match_line_blank)
next
  case (Cons s ss)
  show ?case
  proof (cases "line_body s")
    case True
    then have "match_line (s @ LF # unlines ss) = Some (s @ [LF], unlines ss)"
      by (rule match_line_body)
    with True Cons show ?thesis
      by (simp add: match_lines.simps [of "s @ LF # unlines ss"])
  next
    case False
    with Cons.prems have "match_line (s @ LF # unlines ss) = None"
      by (intro match_line_not_body) simp_all
    with False show ?thesis
      by (simp add: match_lines.simps [of "s @ LF # unlines ss"])
  qed
qed

lemma findall_skip_line:
  "LF \<notin> set s \<Longrightarrow>
   findall_paragraphs_from False (s @ LF # rest) = findall_paragraphs_from True rest"
proof (induction s)
  case Nil
  show ?case by (subst findall_paragraphs_from.simps) simp
next
  case (Cons c s)
  then have "c \<noteq> LF" by auto
  with Cons show ?case
    by (subst findall_paragraphs_from.simps) simp
qed

lemma findall_paragraphs_runs:
  "\<forall>s\<in>set ss. LF \<notin> set s \<Longrightarrow>
   findall_paragraphs_from True (unlines ss) = map unlines (runs_from [] ss)"
proof (induction ss rule: length_induct)
  case (1 ss)
  show ?case
  proof (cases ss)
    case Nil
    then show ?thesis by (simp add: findall_paragraphs_from.simps [of True "[]"])
  next
    case (Cons s ss')
    from "1.prems" have m: "match_lines (unlines ss)
        = (unlines (takeWhile line_body ss), unlines (dropWhile line_body ss))"
      by (rule match_lines_unlines)
    have ne: "unlines ss \<noteq> []" using Cons by simp
    show ?thesis
    proof (cases "line_body s")
      case True
      let ?r = "takeWhile line_body ss" and ?d = "dropWhile line_body ss"
      from True Cons have r: "?r \<noteq> []" by simp
      then have p: "unlines ?r \<noteq> []" by (cases ?r) auto
      from m p have l: "last (unlines ?r) = LF" by (rule match_lines_ends_LF)
      have len: "length ?d < length ss"
        using True Cons length_dropWhile_le [of line_body ss'] by simp
      have "\<forall>s\<in>set ?d. LF \<notin> set s" using "1.prems" by (auto dest: set_dropWhileD)
      with "1.IH" len have ih: "findall_paragraphs_from True (unlines ?d)
          = map unlines (runs_from [] ?d)" by blast
      have "findall_paragraphs_from True (unlines ss)
          = unlines ?r # findall_paragraphs_from True (unlines ?d)"
        using m p l ne by (subst findall_paragraphs_from.simps) simp
      moreover have "runs_from [] ss = ?r # runs_from [] ?d"
        using r by (subst runs_from_split) simp
      ultimately show ?thesis using ih by simp
    next
      case False
      from "1.prems" Cons have s: "LF \<notin> set s" and ss': "\<forall>s\<in>set ss'. LF \<notin> set s" by simp_all
      from Cons "1.IH" ss' have ih: "findall_paragraphs_from True (unlines ss')
          = map unlines (runs_from [] ss')" by simp
      from False Cons m have m': "match_lines (unlines ss) = ([], unlines ss)" by simp
      have "findall_paragraphs_from True (unlines ss) = findall_paragraphs_from True (unlines ss')"
      proof (cases s)
        case Nil
        with Cons m' show ?thesis by (subst findall_paragraphs_from.simps) simp
      next
        case (Cons c s')
        with s have c: "c \<noteq> LF" "LF \<notin> set s'" by auto
        have "findall_paragraphs_from True (unlines ss)
            = findall_paragraphs_from False (s' @ LF # unlines ss')"
          using m' c Cons \<open>ss = s # ss'\<close> by (subst findall_paragraphs_from.simps) simp
        with c(2) show ?thesis by (simp add: findall_skip_line)
      qed
      with ih False Cons show ?thesis by simp
    qed
  qed
qed

lemma get_paragraphs_runs:
  "get_paragraphs t = map unlines
     (runs (butlast (map (lstrip INDENT_CHARS) (splitlines (t @ [LF])))))"
proof -
  let ?L = "butlast (map (lstrip INDENT_CHARS) (splitlines (t @ [LF])))"
  have "\<forall>s\<in>set ?L. LF \<notin> set s"
  proof
    fix s assume "s \<in> set ?L"
    then have "s \<in> set (map (lstrip INDENT_CHARS) (splitlines (t @ [LF])))"
      by (rule in_set_butlastD)
    then obtain l where l: "l \<in> set (splitlines (t @ [LF]))" "s = lstrip INDENT_CHARS l"
      by auto
    have "\<not> nl c" if "c \<in> set s" for c
      using that l lstrip_set [of c INDENT_CHARS l] splitlines_nl_free [of l "t @ [LF]" c] by simp
    then show "LF \<notin> set s" by (auto simp: nl_def)
  qed
  then have "findall_paragraphs_from True (unlines ?L) = map unlines (runs_from [] ?L)"
    by (rule findall_paragraphs_runs)
  moreover have "unlines ?L = concat (map (\<lambda>l. lstrip INDENT_CHARS l @ [LF]) (butlast (splitlines (t @ [LF]))))"
    by (simp add: map_butlast comp_def)
  ultimately show ?thesis
    using get_paragraphs_butlast [of t] by (simp add: findall_paragraphs_def runs_def)
qed

lemma splitlines_from_add_LF_terminated:
  "t \<noteq> [] \<Longrightarrow> last t = LF \<Longrightarrow> splitlines_from cur (t @ [LF]) = splitlines_from cur t @ [[]]"
proof (induction cur t rule: splitlines_from.induct)
  case (1 cur)
  then show ?case by simp
next
  case (2 cur c)
  then show ?case by (simp add: LF_def CR_def)
next
  case (3 cur c d cs)
  show ?case
  proof (cases "c = CR \<and> d = LF")
    case True
    show ?thesis
    proof (cases "cs = []")
      case True
      with \<open>c = CR \<and> d = LF\<close> show ?thesis by simp
    next
      case False
      with "3.prems" True "3.IH"(1) have "splitlines_from [] (cs @ [LF]) = splitlines_from [] cs @ [[]]"
        by simp
      with True show ?thesis by simp
    qed
  next
    case False
    from "3.prems" have d: "last (d # cs) = LF" by simp
    show ?thesis
    proof (cases "c = LF \<or> c = CR")
      case True
      with False d "3.IH"(2) have "splitlines_from [] ((d # cs) @ [LF]) = splitlines_from [] (d # cs) @ [[]]"
        by simp
      with True False show ?thesis by auto
    next
      case nonl: False
      with False d "3.IH"(3) have "splitlines_from (cur @ [c]) ((d # cs) @ [LF])
          = splitlines_from (cur @ [c]) (d # cs) @ [[]]"
        by simp
      with nonl False show ?thesis by auto
    qed
  qed
qed

lemma splitlines_terminated_text:
  "t = [] \<or> last t = LF \<Longrightarrow> splitlines (t @ [LF]) = splitlines t @ [[]]"
  by (cases "t = []") (simp_all add: splitlines_def splitlines_from_add_LF_terminated)

lemma findall_words_from_line:
  "is_space c \<Longrightarrow>
   findall_words_from cur (l @ c # rest) = findall_words_from cur l @ findall_words_from [] rest"
  by (induction l arbitrary: cur) simp_all

lemma findall_words_unlines: "findall_words (unlines ls) = concat (map findall_words ls)"
proof (induction ls)
  case Nil
  show ?case by (simp add: findall_words_def)
next
  case (Cons l ls)
  have "is_space LF" by (simp add: is_space_def)
  then have "findall_words_from [] (l @ LF # unlines ls)
      = findall_words_from [] l @ findall_words_from [] (unlines ls)"
    by (rule findall_words_from_line)
  with Cons show ?case by (simp add: findall_words_def)
qed

lemma runs_from_concat:
  "\<forall>s\<in>set ss. \<not> line_body s \<longrightarrow> f s = [] \<Longrightarrow>
   concat (map (\<lambda>r. concat (map f r)) (runs_from cur ss)) = concat (map f cur) @ concat (map f ss)"
  by (induction ss arbitrary: cur) simp_all

lemma runs_words:
  assumes "\<forall>s\<in>set ss. findall_words s = [] \<or> line_body s"
  shows "concat (map findall_words (map unlines (runs ss))) = concat (map findall_words ss)"
proof -
  have "concat (map findall_words (map unlines (runs ss)))
      = concat (map (\<lambda>r. concat (map findall_words r)) (runs_from [] ss))"
    by (simp add: runs_def comp_def findall_words_unlines)
  also have "\<dots> = concat (map findall_words []) @ concat (map findall_words ss)"
    using assms by (intro runs_from_concat) auto
  finally show ?thesis by simp
qed

lemma runs_from_skip_blank: "runs_from [] (replicate k [] @ ys) = runs_from [] ys"
  by (induction k) (simp_all add: line_body_def)

lemma runs_from_blank_lines:
  "runs_from cur (xs @ replicate (Suc k) [] @ ys) = runs_from cur (xs @ [] # ys)"
proof (induction xs arbitrary: cur)
  case Nil
  show ?case by (simp add: line_body_def runs_from_skip_blank)
next
  case (Cons x xs)
  then show ?case by simp
qed

lemma get_paragraphs_unlines:
  assumes "\<forall>l\<in>set ls. \<forall>c\<in>set l. \<not> nl c"
  shows "get_paragraphs (unlines ls) = map unlines (runs (map (lstrip INDENT_CHARS) ls))"
proof -
  have "unlines ls @ [LF] = unlines (ls @ [[]])" by simp
  moreover from assms have "\<forall>l\<in>set (ls @ [[]]). \<forall>c\<in>set l. \<not> nl c" by simp
  ultimately have "splitlines (unlines ls @ [LF]) = ls @ [[]]"
    using splitlines_terminated [of "ls @ [[]]"] by simp
  then show ?thesis by (simp add: get_paragraphs_runs)
qed

lemma get_indent_unlines:
  assumes "\<forall>l\<in>set ls. \<forall>c\<in>set l. \<not> nl c" "ls \<noteq> []"
  shows "get_indent (unlines ls) = takeWhile (\<lambda>c. c \<in> set INDENT_CHARS) (hd ls)"
proof -
  from assms(2) have "unlines ls \<noteq> []" by (cases ls) auto
  moreover from assms(1) have "splitlines (unlines ls) = ls" by (rule splitlines_terminated)
  ultimately show ?thesis by (simp add: get_indent_first_line)
qed

lemma reflow_blank_lines:
  assumes "\<forall>l\<in>set (xs @ ys). \<forall>c\<in>set l. \<not> nl c"
  shows "reflow (unlines (xs @ replicate (Suc k) [] @ ys)) mll tw
     = reflow (unlines (xs @ [] # ys)) mll tw"
proof -
  let ?A = "xs @ replicate (Suc k) [] @ ys" and ?B = "xs @ [] # ys"
  from assms have A: "\<forall>l\<in>set ?A. \<forall>c\<in>set l. \<not> nl c" and B: "\<forall>l\<in>set ?B. \<forall>c\<in>set l. \<not> nl c"
    by auto
  have "map (lstrip INDENT_CHARS) ?A
      = map (lstrip INDENT_CHARS) xs @ replicate (Suc k) [] @ map (lstrip INDENT_CHARS) ys"
    by (simp add: lstrip_def)
  moreover have "map (lstrip INDENT_CHARS) ?B
      = map (lstrip INDENT_CHARS) xs @ [] # map (lstrip INDENT_CHARS) ys"
    by (simp add: lstrip_def)
  ultimately have "runs (map (lstrip INDENT_CHARS) ?A) = runs (map (lstrip INDENT_CHARS) ?B)"
    unfolding runs_def by (simp only: runs_from_blank_lines)
  then have p: "get_paragraphs (unlines ?A) = get_paragraphs (unlines ?B)"
    by (simp only: get_paragraphs_unlines [OF A] get_paragraphs_unlines [OF B])
  have "hd ?A = hd ?B" by (cases xs) simp_all
  moreover have "?A \<noteq> []" "?B \<noteq> []" by simp_all
  ultimately have i: "get_indent (unlines ?A) = get_indent (unlines ?B)"
    using get_indent_unlines [OF A] get_indent_unlines [OF B] by simp
  show ?thesis by (simp only: reflow_def Let_def p i)
qed

lemma output_tokens:
  assumes "1 \<le> tw"
  shows "\<exists>out. reflow t mll tw = Inr out \<and>
     concat (map (\<lambda>l. findall_words (drop (length (get_indent t)) l)) (splitlines out))
       = concat (map findall_words (get_paragraphs t))"
proof -
  from reflow_splitlines [OF assms] obtain out where
    out: "reflow t mll tw = Inr out" "splitlines out = output_lines t mll tw" by blast
  let ?tok = "\<lambda>l. findall_words (drop (length (get_indent t)) l)"
  have "?tok (get_indent t) = []" by (simp add: findall_words_def)
  then have "concat (map ?tok (output_lines t mll tw)) =
      concat (map (\<lambda>ls. concat (map ?tok ls))
        (map (paragraph_lines (get_indent t) (get_indent_width (get_indent t) tw) mll) (get_paragraphs t)))"
    unfolding output_lines_def by (rule concat_map_py_join)
  also have "\<dots> = concat (map findall_words (get_paragraphs t))"
    by (simp add: comp_def paragraph_lines_tokens)
  finally show ?thesis using out by simp
qed

lemma paragraph_words_of_input:
  assumes fin: "t = [] \<or> last t = LF \<or> findall_words (lstrip INDENT_CHARS (last (splitlines t))) = []"
    and wf: "\<forall>l\<in>set (splitlines t).
        findall_words (lstrip INDENT_CHARS l) = [] \<or> line_body (lstrip INDENT_CHARS l)"
  shows "concat (map findall_words (get_paragraphs t))
     = concat (map (\<lambda>l. findall_words (lstrip INDENT_CHARS l)) (splitlines t))"
proof -
  let ?S = "map (lstrip INDENT_CHARS) (splitlines t)"
  from wf have wfS: "\<forall>s\<in>set ?S. findall_words s = [] \<or> line_body s" by simp
  have goal: "concat (map (\<lambda>l. findall_words (lstrip INDENT_CHARS l)) (splitlines t))
      = concat (map findall_words ?S)" by (simp add: comp_def)
  show ?thesis
  proof (cases "t = [] \<or> last t = LF")
    case True
    then have "splitlines (t @ [LF]) = splitlines t @ [[]]" by (rule splitlines_terminated_text)
    then have "butlast (map (lstrip INDENT_CHARS) (splitlines (t @ [LF]))) = ?S"
      by (simp add: lstrip_def butlast_append)
    then have "get_paragraphs t = map unlines (runs ?S)" by (simp add: get_paragraphs_runs)
    with runs_words [OF wfS] goal show ?thesis by simp
  next
    case False
    then have t: "t \<noteq> []" "last t \<noteq> LF" by simp_all
    then have same: "splitlines (t @ [LF]) = splitlines t"
      by (simp add: splitlines_def splitlines_from_add_LF)
    from t(1) have ne: "?S \<noteq> []" by (simp add: splitlines_def splitlines_from_nonempty)
    from False fin ne have lastS: "findall_words (last ?S) = []" by (simp add: last_map)
    have "\<forall>s\<in>set (butlast ?S). findall_words s = [] \<or> line_body s"
    proof
      fix s assume "s \<in> set (butlast ?S)"
      then have "s \<in> set ?S" by (rule in_set_butlastD)
      with wfS show "findall_words s = [] \<or> line_body s" by blast
    qed
    then have "concat (map findall_words (map unlines (runs (butlast ?S))))
        = concat (map findall_words (butlast ?S))" by (rule runs_words)
    moreover have "get_paragraphs t = map unlines (runs (butlast ?S))"
      by (simp add: get_paragraphs_runs same)
    moreover have "concat (map findall_words ?S) = concat (map findall_words (butlast ?S))"
    proof -
      have "concat (map findall_words (butlast ?S @ [last ?S]))
          = concat (map findall_words (butlast ?S)) @ findall_words (last ?S)"
        by simp
      with ne lastS show ?thesis by simp
    qed
    ultimately show ?thesis using goal by simp
  qed
qed

lemma formatted_paragraphs_joined:
  assumes "1 \<le> tw"
  shows "\<exists>fps. reflow t mll tw = Inr (py_join (get_indent t @ [LF]) fps)
     \<and> length fps = length (get_paragraphs t)
     \<and> (\<forall>i<length fps. format_paragraph (get_indent t) (get_indent_width (get_indent t) tw) mll
            (get_paragraphs t ! i) = Inr (fps ! i))
     \<and> splitlines (py_join (get_indent t @ [LF]) fps) = py_join [get_indent t] (map splitlines fps)
     \<and> (\<forall>f\<in>set fps. splitlines f \<noteq> [] \<and> get_indent t \<notin> set (splitlines f))"
proof -
  let ?ind = "get_indent t" and ?iw = "get_indent_width (get_indent t) tw"
  let ?ps = "get_paragraphs t"
  let ?f = "\<lambda>p. concat (map (\<lambda>l. l @ [LF]) (paragraph_lines ?ind ?iw mll p))"
  have fmt: "format_paragraph ?ind ?iw mll p = Inr (?f p)" if "p \<in> set ?ps" for p
    using assms that by (rule paragraph_format)
  then have "format_all ?ind ?iw mll ?ps = Inr (map ?f ?ps)"
    by (intro format_all_map) blast
  then have r: "reflow t mll tw = Inr (py_join (?ind @ [LF]) (map ?f ?ps))"
    by (simp add: reflow_def Let_def)
  have sl: "splitlines (?f p) = paragraph_lines ?ind ?iw mll p" if "p \<in> set ?ps" for p
  proof (rule splitlines_terminated, intro ballI)
    fix l c assume "l \<in> set (paragraph_lines ?ind ?iw mll p)" "c \<in> set l"
    moreover from this(1) that have "l \<in> set (output_lines t mll tw)"
      unfolding output_lines_def
      by (intro py_join_contains [where ls = "paragraph_lines ?ind ?iw mll p"]) auto
    ultimately show "\<not> nl c" by (intro output_lines_nl_free)
  qed
  then have maps: "map splitlines (map ?f ?ps) = map (paragraph_lines ?ind ?iw mll) ?ps"
    by simp
  from reflow_splitlines [OF assms, of t mll] r
  have lines: "splitlines (py_join (?ind @ [LF]) (map ?f ?ps)) = py_join [?ind] (map splitlines (map ?f ?ps))"
    unfolding maps output_lines_def by simp
  have sep: "splitlines (?f p) \<noteq> [] \<and> ?ind \<notin> set (splitlines (?f p))" if p: "p \<in> set ?ps" for p
  proof -
    have "l \<noteq> ?ind" if "l \<in> set (paragraph_lines ?ind ?iw mll p)" for l
      using paragraph_line_form [OF that] glue_nonempty by auto
    with sl [OF p] paragraph_lines_nonempty [OF p] show ?thesis by auto
  qed
  from r fmt lines sep show ?thesis
    by (intro exI [of _ "map ?f ?ps"]) auto
qed

section \<open>The extracted indent\<close>

lemma get_indent_width_columns:
  "get_indent_width ind tw = (\<Sum>c\<leftarrow>ind. if c = TAB then tw else 1)"
  unfolding get_indent_width_def by (induction ind) (simp_all add: algebra_simps)

text \<open>
  Claim C5.  The extracted indent is the longest prefix of the first line of the input
  that consists of indent characters only: it is a prefix of the first line (the text up
  to the first line break), all its characters are in \<open>INDENT_CHARS\<close>, and every prefix
  of the input made of indent characters only is a prefix of it; it is empty when the
  input does not start with an indent character.  The indent width is
  \<open>len(indent) + indent.count('\t') * (tab_width - 1)\<close>, which counts \<open>tab_width\<close> columns
  for a tab and one column for any other character.
\<close>

theorem indent_longest_prefix:
  "prefix (get_indent t) (takeWhile (\<lambda>c. c \<noteq> LF \<and> c \<noteq> CR) t)
   \<and> set (get_indent t) \<subseteq> set INDENT_CHARS
   \<and> (\<forall>p. prefix p t \<and> set p \<subseteq> set INDENT_CHARS \<longrightarrow> prefix p (get_indent t))
   \<and> (t = [] \<or> hd t \<notin> set INDENT_CHARS \<longrightarrow> get_indent t = [])
   \<and> get_indent_width (get_indent t) tab_width =
       int (length (get_indent t)) + int (count_list (get_indent t) TAB) * (tab_width - 1)
   \<and> get_indent_width (get_indent t) tab_width =
       (\<Sum>c\<leftarrow>get_indent t. if c = TAB then tab_width else 1)"
proof -
  let ?P = "\<lambda>c. c \<in> set INDENT_CHARS"
  have "prefix (takeWhile ?P t) (takeWhile (\<lambda>c. c \<noteq> LF \<and> c \<noteq> CR) t)"
    by (induction t) (auto dest: INDENT_CHARS_not_nl)
  moreover have "set (takeWhile ?P t) \<subseteq> set INDENT_CHARS"
    by (auto dest: set_takeWhileD)
  moreover have "\<forall>p. prefix p t \<and> set p \<subseteq> set INDENT_CHARS \<longrightarrow> prefix p (takeWhile ?P t)"
    by (auto intro: prefix_takeWhile)
  moreover have "t = [] \<or> hd t \<notin> set INDENT_CHARS \<longrightarrow> takeWhile ?P t = []"
    by (cases t) auto
  moreover have "get_indent_width (get_indent t) tab_width =
      (\<Sum>c\<leftarrow>get_indent t. if c = TAB then tab_width else 1)"
    by (rule get_indent_width_columns)
  ultimately show ?thesis
    by (simp add: get_indent_takeWhile get_indent_width_def)
qed

theorem indent_longest_prefix_witness:
  "get_indent (''# - ab'' @ [LF] @ ''# c'') = ''# - ''
   \<and> prefix ''# '' (get_indent (''# - ab'' @ [LF] @ ''# c''))
   \<and> get_indent_width (get_indent ([TAB] @ ''# x'')) 8 = 10"
proof -
  have "prefix ''# '' (''# - ab'' @ [LF] @ ''# c'') \<and> set ''# '' \<subseteq> set INDENT_CHARS"
    by (simp add: INDENT_CHARS_def)
  with indent_longest_prefix [of "''# - ab'' @ [LF] @ ''# c''" 8]
  have "prefix ''# '' (get_indent (''# - ab'' @ [LF] @ ''# c''))" by blast
  moreover have "get_indent (''# - ab'' @ [LF] @ ''# c'') = ''# - ''"
    by (simp add: get_indent_def INDENT_CHARS_def LF_def TAB_def)
  moreover have "get_indent ([TAB] @ ''# x'') = [TAB] @ ''# ''"
    by (simp add: get_indent_def INDENT_CHARS_def LF_def TAB_def)
  ultimately show ?thesis
    by (simp add: get_indent_width_def TAB_def)
qed

section \<open>Removing the indentation twice\<close>

text \<open>
  Claim C9, as amended.  Stripping a line twice is the same as stripping it once, and the
  whole stage applied to its own output returns that output, provided that output does
  not end with a newline.  (The claim without the proviso fails: \<open>splitlines\<close> followed by
  \<open>join\<close> drops a line break at the very end, so an output that ends with a newline loses
  it at the next application.)
\<close>

theorem remove_indentation_idempotent:
  "lstrip INDENT_CHARS (lstrip INDENT_CHARS line) = lstrip INDENT_CHARS line
   \<and> (remove_indentation t = [] \<or> last (remove_indentation t) \<noteq> LF \<longrightarrow>
        remove_indentation (remove_indentation t) = remove_indentation t)"
  using remove_indentation_twice [of t] by (auto simp: lstrip_idem)

theorem remove_indentation_idempotent_witness:
  "remove_indentation (''# a'' @ [LF] @ ''  b'' @ [LF]) = ''a'' @ [LF] @ ''b''
   \<and> remove_indentation (remove_indentation (''# a'' @ [LF] @ ''  b'' @ [LF]))
       = remove_indentation (''# a'' @ [LF] @ ''  b'' @ [LF])"
proof -
  have v: "remove_indentation (''# a'' @ [LF] @ ''  b'' @ [LF]) = ''a'' @ [LF] @ ''b''"
    by (simp add: remove_indentation_def splitlines_def lstrip_def INDENT_CHARS_def
        LF_def CR_def TAB_def)
  then have "last (remove_indentation (''# a'' @ [LF] @ ''  b'' @ [LF])) \<noteq> LF"
    by (simp add: LF_def)
  with v remove_indentation_idempotent [of "[]" "''# a'' @ [LF] @ ''  b'' @ [LF]"]
  show ?thesis by blast
qed

text \<open>
  The claim as stated fails on the text \<open>a\n#\n\<close>: the first application gives \<open>a\n\<close>,
  the second gives \<open>a\<close>.
\<close>

theorem remove_indentation_not_idempotent:
  "remove_indentation (remove_indentation (''a'' @ [LF] @ ''#'' @ [LF]))
     \<noteq> remove_indentation (''a'' @ [LF] @ ''#'' @ [LF])"
  by (simp add: remove_indentation_def splitlines_def lstrip_def INDENT_CHARS_def
      LF_def CR_def TAB_def)

section \<open>The width of the output lines\<close>

text \<open>
  Claim C1, as amended.  For every text, every margin and every tab width of at least 1,
  \<open>reflow\<close> returns an output, and every line of it has column width (indent included, a
  tab counting for \<open>tab_width\<close> columns) at most \<open>max_line_length\<close>, unless the line is the
  indent alone (the line between two paragraphs) or the indent followed by one single
  token.  (As stated, with lines of a single token longer than \<open>max_line_length\<close> as the
  only exception, the claim fails: the first token of a line is placed whatever its
  width, so the indent and a token that is itself within the margin can exceed it.)
\<close>

theorem width_bound:
  assumes "1 \<le> tw"
  shows "\<exists>out. reflow t mll tw = Inr out \<and>
     (\<forall>l\<in>set (splitlines out).
        column_width l tw \<le> mll \<or> l = get_indent t \<or> (\<exists>w. is_token w \<and> l = get_indent t @ w))"
proof -
  from reflow_splitlines [OF assms] obtain out where
    out: "reflow t mll tw = Inr out" "splitlines out = output_lines t mll tw" by blast
  have "column_width l tw \<le> mll \<or> l = get_indent t \<or> (\<exists>w. is_token w \<and> l = get_indent t @ w)"
    if "l \<in> set (output_lines t mll tw)" for l
    using output_line_form [OF that]
  proof
    assume "l = get_indent t"
    then show ?thesis by simp
  next
    assume "\<exists>p\<in>set (get_paragraphs t). \<exists>g\<in>set (wrap (get_indent_width (get_indent t) tw) mll (findall_words p)).
        g \<noteq> [] \<and> (\<forall>w\<in>set g. is_token w) \<and> l = get_indent t @ glue g"
    then obtain p g where g: "g \<in> set (wrap (get_indent_width (get_indent t) tw) mll (findall_words p))"
      "g \<noteq> []" "\<forall>w\<in>set g. is_token w" "l = get_indent t @ glue g" by blast
    from wrap_width [OF g(1)] show ?thesis
    proof
      assume "get_indent_width (get_indent t) tw + int (length (glue g)) \<le> mll"
      with g(3,4) show ?thesis by (simp add: column_width_line)
    next
      assume "length g = 1"
      then obtain w where "g = [w]" by (cases g) auto
      with g(3,4) show ?thesis by auto
    qed
  qed
  with out show ?thesis by auto
qed

theorem width_bound_witness:
  "reflow (''aaa bbb ccc'' @ [LF]) 7 4 = Inr (''aaa bbb'' @ [LF] @ ''ccc'' @ [LF])
   \<and> column_width ''aaa bbb'' 4 \<le> 7"
proof -
  have r: "reflow (''aaa bbb ccc'' @ [LF]) 7 4 = Inr (''aaa bbb'' @ [LF] @ ''ccc'' @ [LF])"
    by code_simp
  have s: "splitlines (''aaa bbb'' @ [LF] @ ''ccc'' @ [LF]) = [''aaa bbb'', ''ccc'']"
    by code_simp
  have i: "get_indent (''aaa bbb ccc'' @ [LF]) = []"
    by code_simp
  have n: "\<not> is_token ''aaa bbb''"
    by (simp add: is_token_def is_space_def)
  from width_bound [of 4 "''aaa bbb ccc'' @ [LF]" 7] r s i n
  have "column_width ''aaa bbb'' 4 \<le> 7" by auto
  with r show ?thesis by simp
qed

text \<open>
  With the margin at 5, the text \<open># # # abcd\n\n# # # b\n\<close> has the indent \<open># # # \<close> of
  width 6.  Its output has the line \<open># # # abcd\<close> of width 10, whose tokens are all at
  most 4 long, and between the two paragraphs the line \<open># # # \<close> of width 6, which holds
  three tokens of length 1.
\<close>

theorem width_bound_as_stated_fails:
  "reflow (''# # # abcd'' @ [LF, LF] @ ''# # # b'' @ [LF]) 5 4
     = Inr (''# # # abcd'' @ [LF] @ ''# # # '' @ [LF] @ ''# # # b'' @ [LF])
   \<and> splitlines (''# # # abcd'' @ [LF] @ ''# # # '' @ [LF] @ ''# # # b'' @ [LF])
       = [''# # # abcd'', ''# # # '', ''# # # b'']
   \<and> \<not> column_width ''# # # abcd'' 4 \<le> 5
   \<and> findall_words ''# # # abcd'' = [''#'', ''#'', ''#'', ''abcd'']
   \<and> \<not> column_width ''# # # '' 4 \<le> 5
   \<and> findall_words ''# # # '' = [''#'', ''#'', ''#'']"
  by code_simp

section \<open>Preservation of the words\<close>

text \<open>
  Claim C2, as amended.  For every input text whose final line ends with a newline or
  holds no token behind its leading indent characters, and whose every line, behind its
  leading indent characters, holds no token or is a run of tokens separated by spaces and
  tabs with no whitespace after the last token: the tokens of the output, read line by
  line behind the indent, are the tokens of the input lines behind their leading indent
  characters, in the same order, hence also as multisets.  (As stated, against all tokens
  of the input, the claim fails: the leading indent characters of every line are
  discarded, and with them the tokens they form.  What becomes of the tokens of a line
  that the hypotheses exclude is neither promised nor denied here.)
\<close>

theorem words_preserved:
  assumes "1 \<le> tw"
    and "t = [] \<or> last t = LF \<or> findall_words (lstrip INDENT_CHARS (last (splitlines t))) = []"
    and "\<forall>l\<in>set (splitlines t).
        findall_words (lstrip INDENT_CHARS l) = [] \<or> line_body (lstrip INDENT_CHARS l)"
  shows "\<exists>out. reflow t mll tw = Inr out \<and>
     concat (map (\<lambda>l. findall_words (drop (length (get_indent t)) l)) (splitlines out))
       = concat (map (\<lambda>l. findall_words (lstrip INDENT_CHARS l)) (splitlines t)) \<and>
     mset (concat (map (\<lambda>l. findall_words (drop (length (get_indent t)) l)) (splitlines out)))
       = mset (concat (map (\<lambda>l. findall_words (lstrip INDENT_CHARS l)) (splitlines t)))"
  using output_tokens [OF assms(1), of t mll] paragraph_words_of_input [OF assms(2,3)]
  by auto

theorem words_preserved_witness:
  "reflow (''# one. Two'' @ [LF] @ ''# three'' @ [LF, LF] @ ''#   four'' @ [LF]) 10 4
     = Inr (''# one.'' @ [LF] @ ''# Two'' @ [LF] @ ''# three'' @ [LF] @ ''# '' @ [LF] @ ''# four'' @ [LF])
   \<and> concat (map (\<lambda>l. findall_words (drop (length ''# '') l))
        [''# one.'', ''# Two'', ''# three'', ''# '', ''# four''])
       = [''one.'', ''Two'', ''three'', ''four'']"
proof -
  let ?t = "''# one. Two'' @ [LF] @ ''# three'' @ [LF, LF] @ ''#   four'' @ [LF]"
  let ?x = "''# one.'' @ [LF] @ ''# Two'' @ [LF] @ ''# three'' @ [LF] @ ''# '' @ [LF] @ ''# four'' @ [LF]"
  have r: "reflow ?t 10 4 = Inr ?x"
    by code_simp
  have s: "splitlines ?x = [''# one.'', ''# Two'', ''# three'', ''# '', ''# four'']"
    by code_simp
  have i: "get_indent ?t = ''# ''"
    by code_simp
  have "last ?t = LF" by simp
  then have h1: "?t = [] \<or> last ?t = LF \<or> findall_words (lstrip INDENT_CHARS (last (splitlines ?t))) = []"
    by (rule disjI2 [OF disjI1])
  have h2: "\<forall>l\<in>set (splitlines ?t).
        findall_words (lstrip INDENT_CHARS l) = [] \<or> line_body (lstrip INDENT_CHARS l)"
    by code_simp
  have w: "concat (map (\<lambda>l. findall_words (lstrip INDENT_CHARS l)) (splitlines ?t))
      = [''one.'', ''Two'', ''three'', ''four'']"
    by code_simp
  have one: "(1::int) \<le> 4" by simp
  from words_preserved [OF one h1 h2, of 10] obtain out where
    o: "reflow ?t 10 4 = Inr out"
    and e: "concat (map (\<lambda>l. findall_words (drop (length (get_indent ?t)) l)) (splitlines out))
       = concat (map (\<lambda>l. findall_words (lstrip INDENT_CHARS l)) (splitlines ?t))"
    by blast
  from o r have "out = ?x" by simp
  with e s i w have "concat (map (\<lambda>l. findall_words (drop (length ''# '') l))
        [''# one.'', ''# Two'', ''# three'', ''# '', ''# four''])
       = [''one.'', ''Two'', ''three'', ''four'']"
    by (simp only:)
  with r show ?thesis by (rule conjI)
qed

text \<open>
  The text \<open># a\n# b\n\<close> has the tokens \<open>#\<close>, \<open>a\<close>, \<open>#\<close>, \<open>b\<close>; the output is \<open># a b\n\<close>,
  with the tokens \<open>a\<close>, \<open>b\<close> behind the indent.
\<close>

theorem words_as_stated_not_preserved:
  "reflow (''# a'' @ [LF] @ ''# b'' @ [LF]) 80 4 = Inr (''# a b'' @ [LF])
   \<and> get_indent (''# a'' @ [LF] @ ''# b'' @ [LF]) = ''# ''
   \<and> concat (map (\<lambda>l. findall_words (drop (length ''# '') l)) (splitlines (''# a b'' @ [LF])))
       = [''a'', ''b'']
   \<and> findall_words (''# a'' @ [LF] @ ''# b'' @ [LF]) = [''#'', ''a'', ''#'', ''b'']
   \<and> mset [''a'', ''b''] \<noteq> mset [''#'', ''a'', ''#'', ''b'']"
proof -
  have "size (mset [''a'', ''b'']) \<noteq> size (mset [''#'', ''a'', ''#'', ''b''])" by simp
  then have "mset [''a'', ''b''] \<noteq> mset [''#'', ''a'', ''#'', ''b'']" by metis
  moreover have "reflow (''# a'' @ [LF] @ ''# b'' @ [LF]) 80 4 = Inr (''# a b'' @ [LF])
   \<and> get_indent (''# a'' @ [LF] @ ''# b'' @ [LF]) = ''# ''
   \<and> concat (map (\<lambda>l. findall_words (drop (length ''# '') l)) (splitlines (''# a b'' @ [LF])))
       = [''a'', ''b'']
   \<and> findall_words (''# a'' @ [LF] @ ''# b'' @ [LF]) = [''#'', ''a'', ''#'', ''b'']"
    by code_simp
  ultimately show ?thesis by blast
qed

section \<open>Spacing between sentences\<close>

text \<open>
  Claim C3.  Within a paragraph, every output line is the indent followed by \<open>glue\<close> of
  the tokens on it: a token that follows another on a line is preceded by two spaces if
  the line so far ends with a period and the token starts with one of \<open>A\<close> to \<open>Z\<close>, and
  by one space otherwise (\<open>sep_for\<close>).  The lines hold the tokens of the paragraph in
  order.
\<close>

theorem sentence_spacing:
  assumes "0 \<le> indent_width" "findall_words paragraph \<noteq> []"
  shows "\<exists>groups. format_paragraph indent indent_width max_line_length paragraph
            = Inr (concat (map (\<lambda>g. indent @ glue g @ [LF]) groups))
         \<and> concat groups = findall_words paragraph \<and> (\<forall>g\<in>set groups. g \<noteq> [])"
proof -
  have "\<forall>w\<in>set (findall_words paragraph). w \<noteq> []"
    using findall_words_tokens by (auto simp: is_token_def)
  with assms have "format_paragraph indent indent_width max_line_length paragraph
      = Inr (render indent (wrap indent_width max_line_length (findall_words paragraph)))"
    by (intro format_paragraph_render)
  then show ?thesis
    using wrap_concat [of indent_width max_line_length "findall_words paragraph"]
      wrap_groups_nonempty [of _ indent_width max_line_length "findall_words paragraph"]
    unfolding render_def by blast
qed

theorem sentence_spacing_witness:
  "format_paragraph ''# '' 2 80 (''Hello world.'' @ [LF] @ ''This is. it'' @ [LF])
     = Inr (''# Hello world.  This is. it'' @ [LF])
   \<and> (\<exists>groups. ''# Hello world.  This is. it'' @ [LF] = concat (map (\<lambda>g. ''# '' @ glue g @ [LF]) groups)
        \<and> concat groups = [''Hello'', ''world.'', ''This'', ''is.'', ''it''])"
proof -
  let ?p = "''Hello world.'' @ [LF] @ ''This is. it'' @ [LF]"
  have r: "format_paragraph ''# '' 2 80 ?p = Inr (''# Hello world.  This is. it'' @ [LF])"
    by code_simp
  have w: "findall_words ?p = [''Hello'', ''world.'', ''This'', ''is.'', ''it'']"
    by code_simp
  from sentence_spacing [of 2 ?p "''# ''" 80] r w show ?thesis by auto
qed

section \<open>Tokens longer than the margin\<close>

text \<open>
  Claim C6.  For every paragraph and every token of it that is longer than
  \<open>max_line_length\<close>, the output has the line made of the indent and that token, whole; and
  an output line that holds such a token behind the indent holds nothing else.
\<close>

theorem long_token_alone:
  assumes "1 \<le> tw"
  shows "\<exists>out. reflow t mll tw = Inr out \<and>
     (\<forall>p\<in>set (get_paragraphs t). \<forall>w\<in>set (findall_words p).
        mll < int (length w) \<longrightarrow> get_indent t @ w \<in> set (splitlines out)) \<and>
     (\<forall>l\<in>set (splitlines out). \<forall>w\<in>set (findall_words (drop (length (get_indent t)) l)).
        mll < int (length w) \<longrightarrow> l = get_indent t @ w)"
proof -
  let ?ind = "get_indent t" and ?iw = "get_indent_width (get_indent t) tw"
  from reflow_splitlines [OF assms] obtain out where
    out: "reflow t mll tw = Inr out" "splitlines out = output_lines t mll tw" by blast
  have iw: "0 \<le> ?iw" using assms by (rule get_indent_width_nonneg)
  have a: "?ind @ w \<in> set (output_lines t mll tw)"
    if p: "p \<in> set (get_paragraphs t)" and w: "w \<in> set (findall_words p)" and
      long: "mll < int (length w)" for p w
  proof -
    from w have "w \<in> set (concat (wrap ?iw mll (findall_words p)))" by (simp add: wrap_concat)
    then obtain g where g: "g \<in> set (wrap ?iw mll (findall_words p))" "w \<in> set g" by auto
    with iw long have "g = [w]" by (intro wrap_long)
    with g(1) have "?ind @ w \<in> set (paragraph_lines ?ind ?iw mll p)"
      by (force simp: paragraph_lines_def)
    with p show ?thesis
      unfolding output_lines_def by (intro py_join_contains [where ls = "paragraph_lines ?ind ?iw mll p"]) auto
  qed
  have b: "l = ?ind @ w"
    if l: "l \<in> set (output_lines t mll tw)" and w: "w \<in> set (findall_words (drop (length ?ind) l))"
      and long: "mll < int (length w)" for l w
    using output_line_form [OF l]
  proof
    assume "l = ?ind"
    with w show ?thesis by (simp add: findall_words_def)
  next
    assume "\<exists>p\<in>set (get_paragraphs t). \<exists>g\<in>set (wrap ?iw mll (findall_words p)).
        g \<noteq> [] \<and> (\<forall>w\<in>set g. is_token w) \<and> l = ?ind @ glue g"
    then obtain p g where g: "g \<in> set (wrap ?iw mll (findall_words p))"
      "g \<noteq> []" "\<forall>w\<in>set g. is_token w" "l = ?ind @ glue g" by blast
    from g(2,3) have "findall_words (glue g) = g" by (rule findall_words_glue)
    with w g(4) have "w \<in> set g" by simp
    with iw g(1) long have "g = [w]" by (intro wrap_long)
    with g(4) show ?thesis by simp
  qed
  from out a b show ?thesis by auto
qed

theorem long_token_alone_witness:
  "reflow (''- ab abcdefghij cd'' @ [LF]) 5 4
     = Inr (''- ab'' @ [LF] @ ''- abcdefghij'' @ [LF] @ ''- cd'' @ [LF])
   \<and> ''- abcdefghij'' \<in> set (splitlines (''- ab'' @ [LF] @ ''- abcdefghij'' @ [LF] @ ''- cd'' @ [LF]))"
proof -
  let ?t = "''- ab abcdefghij cd'' @ [LF]"
  have r: "reflow ?t 5 4 = Inr (''- ab'' @ [LF] @ ''- abcdefghij'' @ [LF] @ ''- cd'' @ [LF])"
    by code_simp
  have p: "get_paragraphs ?t = [''ab abcdefghij cd'' @ [LF]]"
    by code_simp
  have w: "findall_words (''ab abcdefghij cd'' @ [LF]) = [''ab'', ''abcdefghij'', ''cd'']"
    by code_simp
  have i: "get_indent ?t = ''- ''"
    by code_simp
  from long_token_alone [of 4 ?t 5] r obtain out where
    out: "out = ''- ab'' @ [LF] @ ''- abcdefghij'' @ [LF] @ ''- cd'' @ [LF]"
    and a: "\<forall>p\<in>set (get_paragraphs ?t). \<forall>w\<in>set (findall_words p).
        5 < int (length w) \<longrightarrow> get_indent ?t @ w \<in> set (splitlines out)"
    by auto
  from a p w i have "''- '' @ ''abcdefghij'' \<in> set (splitlines out)" by simp
  with r out show ?thesis by simp
qed

section \<open>Order and separation of the paragraphs\<close>

text \<open>
  Claim C7.  The paragraphs that are re-wrapped are the maximal runs of consecutive
  lines of the input that match the line pattern, in the order in which they stand in the
  input.  (The lines are those of the text with the appended \<open>'\n'\<close>, without their leading
  indent characters; the last of them, empty when the input ends with a newline, is left
  without a newline by \<open>join\<close> and is in no run.)  The output is the re-wrapped paragraphs in that order, joined by
  \<open>indent + '\n'\<close>: its lines are the lines of the paragraphs with exactly one line holding
  just the indent between two consecutive paragraphs, and no line of a paragraph is such
  a line.  The number of blank lines in the input plays no role: with two or more blank
  lines in the place of one the output is the same.
\<close>

theorem paragraphs_in_order:
  assumes "1 \<le> tw"
  shows "\<exists>fps. get_paragraphs t = map unlines
            (runs (butlast (map (lstrip INDENT_CHARS) (splitlines (t @ [LF])))))
     \<and> reflow t mll tw = Inr (py_join (get_indent t @ [LF]) fps)
     \<and> length fps = length (get_paragraphs t)
     \<and> (\<forall>i<length fps. format_paragraph (get_indent t) (get_indent_width (get_indent t) tw) mll
            (get_paragraphs t ! i) = Inr (fps ! i))
     \<and> splitlines (py_join (get_indent t @ [LF]) fps) = py_join [get_indent t] (map splitlines fps)
     \<and> (\<forall>f\<in>set fps. splitlines f \<noteq> [] \<and> get_indent t \<notin> set (splitlines f))
     \<and> (\<forall>xs ys k. (\<forall>l\<in>set (xs @ ys). \<forall>c\<in>set l. \<not> nl c) \<longrightarrow>
            reflow (unlines (xs @ replicate (Suc k) [] @ ys)) mll tw
              = reflow (unlines (xs @ [] # ys)) mll tw)"
proof -
  from formatted_paragraphs_joined [OF assms, of t mll] obtain fps where
    "reflow t mll tw = Inr (py_join (get_indent t @ [LF]) fps)
     \<and> length fps = length (get_paragraphs t)
     \<and> (\<forall>i<length fps. format_paragraph (get_indent t) (get_indent_width (get_indent t) tw) mll
            (get_paragraphs t ! i) = Inr (fps ! i))
     \<and> splitlines (py_join (get_indent t @ [LF]) fps) = py_join [get_indent t] (map splitlines fps)
     \<and> (\<forall>f\<in>set fps. splitlines f \<noteq> [] \<and> get_indent t \<notin> set (splitlines f))" ..
  moreover have "get_paragraphs t = map unlines
      (runs (butlast (map (lstrip INDENT_CHARS) (splitlines (t @ [LF])))))"
    by (rule get_paragraphs_runs)
  moreover have "\<forall>xs ys k. (\<forall>l\<in>set (xs @ ys). \<forall>c\<in>set l. \<not> nl c) \<longrightarrow>
      reflow (unlines (xs @ replicate (Suc k) [] @ ys)) mll tw = reflow (unlines (xs @ [] # ys)) mll tw"
    using reflow_blank_lines by blast
  ultimately show ?thesis by blast
qed

theorem paragraphs_in_order_witness:
  "get_paragraphs (''  a b'' @ [LF] @ ''c'' @ [LF, LF, LF] @ ''d e'' @ [LF])
     = [''a b'' @ [LF] @ ''c'' @ [LF], ''d e'' @ [LF]]
   \<and> reflow (''  a b'' @ [LF] @ ''c'' @ [LF, LF, LF] @ ''d e'' @ [LF]) 80 4
     = Inr (py_join (''  '' @ [LF]) [''  a b c'' @ [LF], ''  d e'' @ [LF]])
   \<and> splitlines (py_join (''  '' @ [LF]) [''  a b c'' @ [LF], ''  d e'' @ [LF]])
       = [''  a b c'', ''  '', ''  d e'']
   \<and> reflow (unlines ([''  a b'', ''c''] @ replicate (Suc (Suc 0)) [] @ [''d e''])) 80 4
       = reflow (unlines ([''  a b'', ''c''] @ [] # [''d e''])) 80 4"
proof -
  let ?t = "''  a b'' @ [LF] @ ''c'' @ [LF, LF, LF] @ ''d e'' @ [LF]"
  have one: "(1::int) \<le> 4" by simp
  have rn: "map unlines (runs (butlast (map (lstrip INDENT_CHARS) (splitlines (?t @ [LF])))))
      = [''a b'' @ [LF] @ ''c'' @ [LF], ''d e'' @ [LF]]"
    by code_simp
  have i: "get_indent ?t = ''  ''"
    by code_simp
  have f0: "format_paragraph ''  '' (get_indent_width ''  '' 4) 80 (''a b'' @ [LF] @ ''c'' @ [LF])
      = Inr (''  a b c'' @ [LF])"
    by code_simp
  have f1: "format_paragraph ''  '' (get_indent_width ''  '' 4) 80 (''d e'' @ [LF]) = Inr (''  d e'' @ [LF])"
    by code_simp
  have s0: "splitlines (''  a b c'' @ [LF]) = [''  a b c'']"
    and s1: "splitlines (''  d e'' @ [LF]) = [''  d e'']"
    by code_simp+
  have free: "\<forall>l\<in>set ([''  a b'', ''c''] @ [''d e'']). \<forall>c\<in>set l. \<not> nl c"
    by (simp add: nl_def LF_def CR_def)
  from paragraphs_in_order [OF one, of ?t 80] obtain fps where
    p0: "get_paragraphs ?t = map unlines
        (runs (butlast (map (lstrip INDENT_CHARS) (splitlines (?t @ [LF])))))"
    and r: "reflow ?t 80 4 = Inr (py_join (get_indent ?t @ [LF]) fps)"
    and l: "length fps = length (get_paragraphs ?t)"
    and f: "\<forall>i<length fps. format_paragraph (get_indent ?t) (get_indent_width (get_indent ?t) 4) 80
            (get_paragraphs ?t ! i) = Inr (fps ! i)"
    and s: "splitlines (py_join (get_indent ?t @ [LF]) fps) = py_join [get_indent ?t] (map splitlines fps)"
    and b: "\<forall>xs ys k. (\<forall>l\<in>set (xs @ ys). \<forall>c\<in>set l. \<not> nl c) \<longrightarrow>
            reflow (unlines (xs @ replicate (Suc k) [] @ ys)) 80 4
              = reflow (unlines (xs @ [] # ys)) 80 4"
    by blast
  from p0 rn have p: "get_paragraphs ?t = [''a b'' @ [LF] @ ''c'' @ [LF], ''d e'' @ [LF]]"
    by (simp only:)
  from l p obtain x y where fps: "fps = [x, y]"
    by (cases fps; cases "tl fps") auto
  from f [rule_format, of 0] f [rule_format, of 1] fps p i f0 f1
  have xy: "x = ''  a b c'' @ [LF]" "y = ''  d e'' @ [LF]" by simp_all
  from b free have bl: "reflow (unlines ([''  a b'', ''c''] @ replicate (Suc (Suc 0)) [] @ [''d e''])) 80 4
       = reflow (unlines ([''  a b'', ''c''] @ [] # [''d e''])) 80 4"
    by blast
  from r s fps i s0 s1 xy have "reflow ?t 80 4
     = Inr (py_join (''  '' @ [LF]) [''  a b c'' @ [LF], ''  d e'' @ [LF]])
   \<and> splitlines (py_join (''  '' @ [LF]) [''  a b c'' @ [LF], ''  d e'' @ [LF]])
       = [''  a b c'', ''  '', ''  d e'']"
    by simp
  with p bl show ?thesis by blast
qed

section \<open>Uniform indent\<close>

text \<open>
  Claim C8.  For every text (and tab width of at least 1), \<open>reflow\<close> returns an output,
  and every line of it, blank or not, begins with the indent extracted from the first
  line of the input.
\<close>

theorem indent_uniformity:
  assumes "1 \<le> tw"
  shows "\<exists>out. reflow t mll tw = Inr out \<and> (\<forall>l\<in>set (splitlines out). prefix (get_indent t) l)"
proof -
  from reflow_splitlines [OF assms] obtain out where
    out: "reflow t mll tw = Inr out" "splitlines out = output_lines t mll tw" by blast
  have "prefix (get_indent t) l" if "l \<in> set (output_lines t mll tw)" for l
    using output_line_form [OF that] by auto
  with out show ?thesis by auto
qed

theorem indent_uniformity_witness:
  "reflow (''# one two three four five six seven'' @ [LF]) 15 4
     = Inr (''# one two three'' @ [LF] @ ''# four five six'' @ [LF] @ ''# seven'' @ [LF])
   \<and> get_indent (''# one two three four five six seven'' @ [LF]) = ''# ''
   \<and> prefix ''# '' ''# four five six''"
proof -
  have r: "reflow (''# one two three four five six seven'' @ [LF]) 15 4
     = Inr (''# one two three'' @ [LF] @ ''# four five six'' @ [LF] @ ''# seven'' @ [LF])"
    by code_simp
  have s: "splitlines (''# one two three'' @ [LF] @ ''# four five six'' @ [LF] @ ''# seven'' @ [LF])
     = [''# one two three'', ''# four five six'', ''# seven'']"
    by code_simp
  have i: "get_indent (''# one two three four five six seven'' @ [LF]) = ''# ''"
    by code_simp
  from indent_uniformity [of 4 "''# one two three four five six seven'' @ [LF]" 15] r s
  have "prefix (get_indent (''# one two three four five six seven'' @ [LF])) ''# four five six''"
    by auto
  with r i show ?thesis by simp
qed

section \<open>The final line without a newline\<close>

text \<open>
  Claim C10, as amended.  For every non-empty input text that does not end with a newline
  character, the final line of the input is in no paragraph: the paragraphs are those
  found in the stripped lines before the final one, and the output is the output for the
  text without its final line.  (The \<open>'\n'\<close> appended to the text is dropped again by
  \<open>splitlines\<close> and \<open>join\<close>, so the final line does not end with \<open>\n\<close> and cannot match the
  line pattern.  As stated, that the tokens of the final line appear nowhere in the output,
  the claim fails when a token of the final line also stands on an earlier line.)
\<close>

theorem final_line_dropped:
  assumes "t \<noteq> []" "last t \<noteq> LF"
  shows "get_paragraphs t = findall_paragraphs
           (concat (map (\<lambda>l. lstrip INDENT_CHARS l @ [LF]) (butlast (splitlines t))))
       \<and> reflow t mll tw = reflow (concat (map (\<lambda>l. l @ [LF]) (butlast (splitlines t)))) mll tw"
  using reflow_without_final_line [OF assms] by simp

theorem final_line_dropped_witness:
  "splitlines (''a b'' @ [LF] @ ''c d'') = [''a b'', ''c d'']
   \<and> get_paragraphs (''a b'' @ [LF] @ ''c d'') = [''a b'' @ [LF]]
   \<and> reflow (''a b'' @ [LF] @ ''c d'') 80 4 = reflow (''a b'' @ [LF]) 80 4
   \<and> reflow (''a b'' @ [LF]) 80 4 = Inr (''a b'' @ [LF])"
proof -
  let ?t = "''a b'' @ [LF] @ ''c d''"
  have s: "splitlines ?t = [''a b'', ''c d'']" by code_simp
  have n: "?t \<noteq> []" "last ?t \<noteq> LF" by (simp_all add: LF_def)
  have f: "findall_paragraphs (lstrip INDENT_CHARS ''a b'' @ [LF]) = [''a b'' @ [LF]]" by code_simp
  have r: "reflow (''a b'' @ [LF]) 80 4 = Inr (''a b'' @ [LF])" by code_simp
  from final_line_dropped [OF n, of 80 4] s f r show ?thesis by simp
qed

text \<open>
  The text \<open>a\na\<close> has the final line \<open>a\<close>, and its output \<open>a\n\<close> holds the token \<open>a\<close>.
\<close>

theorem final_line_token_in_output:
  "reflow (''a'' @ [LF] @ ''a'') 80 4 = Inr (''a'' @ [LF])
   \<and> splitlines (''a'' @ [LF] @ ''a'') = [''a'', ''a'']
   \<and> findall_words ''a'' = [''a'']
   \<and> findall_words (''a'' @ [LF]) = [''a'']"
  by code_simp

section \<open>Re-wrapping twice\<close>

text \<open>
  Claim C4, as amended.  For every text and tab width of at least 1, \<open>reflow\<close> returns an
  output, and re-wrapping that output returns it unchanged, provided that on no line of
  the output the text behind the indent starts with an indent character, that is,
  stripping a line of the output removes the indent and nothing more.  (Without the
  proviso the claim fails, also for texts within the width bound: a token such as \<open>-c\<close>
  that the first pass moves to the start of a line loses its leading indent characters in
  the second pass.)
\<close>

theorem reflow_idempotent:
  assumes "1 \<le> tw"
  shows "\<exists>out. reflow t mll tw = Inr out \<and>
     ((\<forall>l\<in>set (splitlines out). lstrip INDENT_CHARS l = drop (length (get_indent t)) l)
        \<longrightarrow> reflow out mll tw = Inr out)"
proof -
  let ?out = "concat (map (\<lambda>l. l @ [LF]) (output_lines t mll tw))"
  have r: "reflow t mll tw = Inr ?out" using assms by (rule reflow_output)
  have s: "splitlines ?out = output_lines t mll tw"
    using output_lines_nl_free by (intro splitlines_terminated) blast
  have "reflow ?out mll tw = Inr ?out"
    if "\<forall>l\<in>set (splitlines ?out). lstrip INDENT_CHARS l = drop (length (get_indent t)) l"
    using reflow_again [OF assms, of t mll] that r unfolding s by simp
  with r show ?thesis by blast
qed

theorem reflow_idempotent_witness:
  "reflow (''# one two three four five six seven'' @ [LF]) 15 4
     = Inr (''# one two three'' @ [LF] @ ''# four five six'' @ [LF] @ ''# seven'' @ [LF])
   \<and> reflow (''# one two three'' @ [LF] @ ''# four five six'' @ [LF] @ ''# seven'' @ [LF]) 15 4
     = Inr (''# one two three'' @ [LF] @ ''# four five six'' @ [LF] @ ''# seven'' @ [LF])"
proof -
  let ?t = "''# one two three four five six seven'' @ [LF]"
  let ?x = "''# one two three'' @ [LF] @ ''# four five six'' @ [LF] @ ''# seven'' @ [LF]"
  have r: "reflow ?t 15 4 = Inr ?x" by code_simp
  have h: "\<forall>l\<in>set (splitlines ?x). lstrip INDENT_CHARS l = drop (length (get_indent ?t)) l"
    by code_simp
  from reflow_idempotent [of 4 ?t 15] r h have "reflow ?x 15 4 = Inr ?x" by auto
  with r show ?thesis by simp
qed

text \<open>
  With the margin at 4, the text \<open>aa\nb -c\n\<close>, whose lines are 2 and 4 wide, is
  re-wrapped to \<open>aa b\n-c\n\<close>, and that to \<open>aa b\nc\n\<close>.
\<close>

theorem reflow_not_idempotent:
  "reflow (''aa'' @ [LF] @ ''b -c'' @ [LF]) 4 4 = Inr (''aa b'' @ [LF] @ ''-c'' @ [LF])
   \<and> reflow (''aa b'' @ [LF] @ ''-c'' @ [LF]) 4 4 = Inr (''aa b'' @ [LF] @ ''c'' @ [LF])
   \<and> ''aa b'' @ [LF] @ ''c'' @ [LF] \<noteq> ''aa b'' @ [LF] @ ''-c'' @ [LF]
   \<and> splitlines (''aa'' @ [LF] @ ''b -c'' @ [LF]) = [''aa'', ''b -c'']
   \<and> column_width ''aa'' 4 \<le> 4 \<and> column_width ''b -c'' 4 \<le> 4"
  by code_simp

end
